theory Spec2Isabelle
  imports Main "HOL-Library.Word"
begin

section \<open>GeneralStack: a stack kept in a list of tables of linearly growing size\<close>

text \<open>
  A shallow embedding of \<^verbatim>\<open>generalStack.c\<close>: \<^verbatim>\<open>initStack\<close>, \<^verbatim>\<open>isStackEmpty\<close>,
  \<^verbatim>\<open>itemExists\<close>, \<^verbatim>\<open>push\<close> and \<^verbatim>\<open>pop\<close>.

  \<^item> \<^verbatim>\<open>unsigned int\<close> is a 32-bit word: \<open>+\<close>, \<open>-\<close> and \<open>*\<close> wrap around as in C.
    \<^verbatim>\<open>int\<close> is a 32-bit word read in two's complement (\<open>sint\<close>, \<open>\<le>s\<close>, \<open><s\<close>); the
    conversion of an \<^verbatim>\<open>unsigned int\<close> to \<^verbatim>\<open>int\<close> keeps the bit pattern, and an
    overflowing signed subtraction is an error of the model.
  \<^item> A table (\<^verbatim>\<open>node->Items\<close>) is a list of cells, one per byte; a cell that was never
    written holds \<open>None\<close>, since \<^verbatim>\<open>malloc\<close> leaves the contents indeterminate.
  \<^item> The list of tables hanging off \<^verbatim>\<open>stack->head\<close> through \<^verbatim>\<open>next\<close> is a HOL list, newest
    table first; \<open>[]\<close> is the \<^verbatim>\<open>NULL\<close> pointer. Every node is owned by exactly one
    predecessor, so freeing a node is removing it from the list.
  \<^item> A \<^verbatim>\<open>Stack *\<close> is a \<open>stack option\<close>, \<open>None\<close> being \<^verbatim>\<open>NULL\<close>.
  \<^item> \<^verbatim>\<open>exit(0)\<close> is the result \<open>Inl Fatal\<close>; an access outside a table, a read of
    a cell never written, a dereference of \<^verbatim>\<open>NULL\<close> and a signed overflow are
    results \<open>Inl \<dots>\<close> of their own, so that a result \<open>Inr \<dots>\<close> means that the C code
    ran to its end with defined behaviour.
  \<^item> A function that receives the \<^verbatim>\<open>Stack *\<close> returns the stack as it is after the call
    next to its C return value.
\<close>

type_synonym byte = "8 word"
type_synonym uint = "32 word"
type_synonym cint = "32 word"
type_synonym buffer = "byte option list"

datatype error = Fatal | OutOfBounds | Indeterminate | SignedOverflow | NullDeref

text \<open>\<^verbatim>\<open>struct node\<close>: the table; the field \<^verbatim>\<open>next\<close> is the tail of the list.\<close>

record node =
  Items :: buffer

text \<open>
  \<^verbatim>\<open>struct _stack\<close>. The fields \<^verbatim>\<open>i\<close> (first empty space index) and \<^verbatim>\<open>n\<close> (current
  table size) are \<open>stack_i\<close> and \<open>stack_n\<close>.
\<close>

record stack =
  head :: "node list"
  stack_i :: uint
  stack_n :: uint
  itemSize :: uint
  initialSize :: uint

subsection \<open>Memory\<close>

text \<open>
  \<^verbatim>\<open>malloc\<close> of a table. The allocator is taken to have memory left: it returns a block
  of the requested size (also for size 0), all cells indeterminate. The branches
  \<^verbatim>\<open>if (... == NULL) exit(0)\<close> of the source are kept in the callers.
\<close>

definition malloc :: "nat \<Rightarrow> buffer option" where
  "malloc k = Some (replicate k None)"

text \<open>\<^verbatim>\<open>memcpy(Items + off, item, k)\<close>: \<open>k\<close> bytes of the caller's item into a table.\<close>

definition store_item :: "buffer \<Rightarrow> nat \<Rightarrow> byte list \<Rightarrow> nat \<Rightarrow> error + buffer" where
  "store_item buf off item k =
     (if length item < k \<or> length buf < off + k then Inl OutOfBounds
      else Inr (take off buf @ map Some (take k item) @ drop (off + k) buf))"

text \<open>
  The \<open>k\<close> bytes at \<^verbatim>\<open>Items + off\<close>, as \<^verbatim>\<open>memcpy(dest, Items + off, k)\<close> copies them
  and as the comparison function of \<^verbatim>\<open>itemExists\<close> reads them.
\<close>

definition load_item :: "buffer \<Rightarrow> nat \<Rightarrow> nat \<Rightarrow> error + byte list" where
  "load_item buf off k =
     (if length buf < off + k then Inl OutOfBounds
      else if None \<in> set (take k (drop off buf)) then Inl Indeterminate
      else Inr (map the (take k (drop off buf))))"

subsection \<open>initStack\<close>

definition initStack :: "uint \<Rightarrow> uint \<Rightarrow> error + stack" where
  "initStack initial_size item_size =
     (case malloc (unat (initial_size * item_size)) of
        None \<Rightarrow> Inl Fatal
      | Some buf \<Rightarrow>
          Inr \<lparr>head = [\<lparr>Items = buf\<rparr>], stack_i = 0, stack_n = initial_size,
               itemSize = item_size, initialSize = initial_size\<rparr>)"

subsection \<open>isStackEmpty\<close>

text \<open>\<^verbatim>\<open>stack->i == 0 && stack->head->next == NULL\<close>; \<^verbatim>\<open>&&\<close> evaluates its right side
  only when the left side holds.\<close>

fun isStackEmpty :: "stack option \<Rightarrow> error + (cint \<times> stack)" where
  "isStackEmpty None = Inl NullDeref"
| "isStackEmpty (Some s) =
     (if stack_i s = 0 then
        (case head s of
           [] \<Rightarrow> Inl NullDeref
         | nd # rest \<Rightarrow> Inr (if rest = [] then 1 else 0, s))
      else Inr (0, s))"

subsection \<open>itemExists\<close>

text \<open>
  The \<^verbatim>\<open>for\<close> loop over one table either returns from \<^verbatim>\<open>itemExists\<close> or falls through
  to the next table with the depth that is left.
\<close>

datatype scan = Return cint | Next_table cint

function for_loop ::
  "stack \<Rightarrow> node \<Rightarrow> byte list \<Rightarrow> (byte list \<Rightarrow> byte list \<Rightarrow> cint) \<Rightarrow> cint \<Rightarrow> cint
     \<Rightarrow> error + scan" where
  "for_loop s nd item equal i max_depth =
     (if 0 \<le>s i then
        (if max_depth = 0 then Inr (Return 0)
         else
           (case load_item (Items nd) (unat (i * itemSize s)) (unat (itemSize s)) of
              Inl e \<Rightarrow> Inl e
            | Inr cand \<Rightarrow>
                if equal item cand \<noteq> 0 then Inr (Return 1)
                else for_loop s nd item equal (i - 1)
                       (if 0 <s max_depth then max_depth - 1 else max_depth)))
      else Inr (Next_table max_depth))"
  by pat_completeness auto

termination for_loop
proof (relation "measure (\<lambda>(s, nd, item, equal, i, max_depth). nat (sint i + 1))")
  show "wf (measure (\<lambda>(s, nd, item, equal, i, max_depth). nat (sint i + 1)))"
    by simp
next
  fix s :: stack and nd :: node and item :: "byte list"
    and equal :: "byte list \<Rightarrow> byte list \<Rightarrow> cint" and i max_depth :: cint
    and cand :: "byte list"
  assume "0 \<le>s i"
  then have nonneg: "0 \<le> sint i"
    by (simp add: word_sle_eq)
  have "sint i < 2 ^ 31"
    using sint_lt [of i] by simp
  with nonneg have "signed_take_bit 31 (sint i - 1) = sint i - 1"
    by (intro signed_take_bit_int_eq_self) auto
  then have "sint (i - 1) = sint i - 1"
    by (simp add: sint_word_ariths)
  with nonneg
  show "((s, nd, item, equal, i - 1, if 0 <s max_depth then max_depth - 1 else max_depth),
         (s, nd, item, equal, i, max_depth))
        \<in> measure (\<lambda>(s, nd, item, equal, i, max_depth). nat (sint i + 1))"
    by simp
qed

text \<open>The loop is unfolded one step at a time, by \<open>for_loop.simps\<close> where it is needed.\<close>

declare for_loop.simps [simp del]

fun while_loop ::
  "stack \<Rightarrow> node list \<Rightarrow> byte list \<Rightarrow> (byte list \<Rightarrow> byte list \<Rightarrow> cint) \<Rightarrow> cint \<Rightarrow> cint
     \<Rightarrow> cint \<Rightarrow> error + (cint \<times> stack)" where
  "while_loop s [] item equal i n max_depth = Inr (0, s)"
| "while_loop s (nd # rest) item equal i n max_depth =
     (case for_loop s nd item equal i max_depth of
        Inl e \<Rightarrow> Inl e
      | Inr (Return r) \<Rightarrow> Inr (r, s)
      | Inr (Next_table max_depth') \<Rightarrow>
          (if n - initialSize s = - (2 ^ 31) then Inl SignedOverflow
           else while_loop s rest item equal (n - initialSize s - 1) (n - initialSize s)
                  max_depth'))"

fun itemExists ::
  "stack option \<Rightarrow> byte list \<Rightarrow> cint \<Rightarrow> (byte list \<Rightarrow> byte list \<Rightarrow> cint)
     \<Rightarrow> error + (cint \<times> stack)" where
  "itemExists None item max_depth equal = Inl NullDeref"
| "itemExists (Some s) item max_depth equal =
     while_loop s (head s) item equal (stack_i s - 1) (stack_n s) max_depth"

subsection \<open>push\<close>

text \<open>\<^verbatim>\<open>memcpy(head->Items + i * itemSize, item, itemSize); i++; stack->i = i;\<close>\<close>

definition push_copy :: "stack \<Rightarrow> uint \<Rightarrow> byte list \<Rightarrow> error + stack" where
  "push_copy s i item =
     (case head s of
        [] \<Rightarrow> Inl NullDeref
      | nd # rest \<Rightarrow>
          (case store_item (Items nd) (unat (i * itemSize s)) item (unat (itemSize s)) of
             Inl e \<Rightarrow> Inl e
           | Inr buf \<Rightarrow> Inr (s\<lparr>head := \<lparr>Items = buf\<rparr> # rest, stack_i := i + 1\<rparr>)))"

fun push :: "stack option \<Rightarrow> byte list \<Rightarrow> error + stack" where
  "push None item = Inl Fatal"
| "push (Some s) item =
     (if stack_i s = stack_n s then
        (if stack_n s + initialSize s \<le> stack_i s then Inl Fatal
         else
           (case malloc (unat ((stack_n s + initialSize s) * itemSize s)) of
              None \<Rightarrow> Inl Fatal
            | Some buf \<Rightarrow>
                push_copy
                  (s\<lparr>head := \<lparr>Items = buf\<rparr> # head s, stack_n := stack_n s + initialSize s\<rparr>)
                  0 item))
      else push_copy s (stack_i s) item)"

subsection \<open>pop\<close>

text \<open>\<^verbatim>\<open>i--; memcpy(dest, head->Items + i * itemSize, itemSize); stack->i = i;\<close>
  The bytes written to \<^verbatim>\<open>dest\<close> are returned.\<close>

definition pop_copy :: "stack \<Rightarrow> uint \<Rightarrow> error + (byte list \<times> stack)" where
  "pop_copy s i =
     (case head s of
        [] \<Rightarrow> Inl NullDeref
      | nd # rest \<Rightarrow>
          (case load_item (Items nd) (unat ((i - 1) * itemSize s)) (unat (itemSize s)) of
             Inl e \<Rightarrow> Inl e
           | Inr dest \<Rightarrow> Inr (dest, s\<lparr>stack_i := i - 1\<rparr>)))"

fun pop :: "stack option \<Rightarrow> error + (byte list \<times> stack)" where
  "pop None = Inl Fatal"
| "pop (Some s) =
     (case isStackEmpty (Some s) of
        Inl e \<Rightarrow> Inl e
      | Inr (r, s1) \<Rightarrow>
          if r \<noteq> 0 then Inl Fatal
          else if stack_i s1 = 0 then
            (case head s1 of
               [] \<Rightarrow> Inl NullDeref
             | old # rest \<Rightarrow>
                 pop_copy (s1\<lparr>head := rest, stack_n := stack_n s1 - initialSize s1\<rparr>)
                   (stack_n s1 - initialSize s1))
          else pop_copy s1 (stack_i s1))"

subsection \<open>Sequences of calls\<close>

text \<open>Pushing the items of a list, first item first; popping \<open>k\<close> times, collecting what
  each pop copies out. Both stop at the first call that does not return.\<close>

fun pushes :: "stack \<Rightarrow> byte list list \<Rightarrow> error + stack" where
  "pushes s [] = Inr s"
| "pushes s (x # xs) =
     (case push (Some s) x of Inl e \<Rightarrow> Inl e | Inr s' \<Rightarrow> pushes s' xs)"

fun pops :: "stack \<Rightarrow> nat \<Rightarrow> error + (byte list list \<times> stack)" where
  "pops s 0 = Inr ([], s)"
| "pops s (Suc k) =
     (case pop (Some s) of
        Inl e \<Rightarrow> Inl e
      | Inr (y, s') \<Rightarrow>
          (case pops s' k of Inl e \<Rightarrow> Inl e | Inr (ys, s'') \<Rightarrow> Inr (y # ys, s'')))"

subsection \<open>The items a stack holds\<close>

text \<open>
  Item \<open>j\<close> of a table for items of \<open>z\<close> bytes is the \<open>z\<close> cells at offset \<open>j * z\<close>.
  \<open>table_items z buf k\<close> lists the items \<open>k - 1, \<dots>, 0\<close> of a table, the newest first.
  \<open>contents\<close> lists what the stack holds, the top first: the \<^verbatim>\<open>i\<close> items of the head
  table, then all the items of each older table, whose size is the size of its
  successor less \<^verbatim>\<open>initialSize\<close>: the walk of \<^verbatim>\<open>itemExists\<close>.
\<close>

definition slot :: "nat \<Rightarrow> buffer \<Rightarrow> nat \<Rightarrow> buffer" where
  "slot z buf j = take z (drop (j * z) buf)"

fun table_items :: "nat \<Rightarrow> buffer \<Rightarrow> nat \<Rightarrow> buffer list" where
  "table_items z buf 0 = []"
| "table_items z buf (Suc k) = slot z buf k # table_items z buf k"

fun chain_items :: "nat \<Rightarrow> nat \<Rightarrow> node list \<Rightarrow> nat \<Rightarrow> nat \<Rightarrow> buffer list" where
  "chain_items z c [] k n = []"
| "chain_items z c (nd # rest) k n =
     table_items z (Items nd) k @ chain_items z c rest (n - c) (n - c)"

definition contents :: "stack \<Rightarrow> buffer list" where
  "contents s =
     chain_items (unat (itemSize s)) (unat (initialSize s)) (head s) (unat (stack_i s))
       (unat (stack_n s))"

text \<open>
  The representation invariant. An older table of size \<open>n\<close> has \<open>n * z\<close> bytes without
  wrap-around and a table of size \<open>n - c\<close> below it, down to the first table of size
  \<open>c\<close>. The head table has the \<open>unat (n * itemSize)\<close> bytes \<^verbatim>\<open>malloc\<close> was asked for, and
  its \<^verbatim>\<open>i\<close> items lie inside them. \<open>stack_inv s xs\<close> adds that the stack holds the items
  \<open>xs\<close>, the top first, every byte of them written.
\<close>

fun tables_ok :: "nat \<Rightarrow> nat \<Rightarrow> node list \<Rightarrow> nat \<Rightarrow> bool" where
  "tables_ok z c [] n = (n = 0)"
| "tables_ok z c (nd # rest) n =
     (0 < c \<and> c \<le> n \<and> length (Items nd) = n * z \<and> n * z < 2 ^ 32 \<and>
      tables_ok z c rest (n - c))"

definition stack_inv :: "stack \<Rightarrow> byte list list \<Rightarrow> bool" where
  "stack_inv s xs =
     ((case head s of
         [] \<Rightarrow> False
       | nd # rest \<Rightarrow>
           stack_i s \<le> stack_n s \<and> initialSize s \<le> stack_n s \<and>
           length (Items nd) = unat (stack_n s * itemSize s) \<and>
           unat (stack_i s) * unat (itemSize s) \<le> length (Items nd) \<and>
           tables_ok (unat (itemSize s)) (unat (initialSize s)) rest
             (unat (stack_n s) - unat (initialSize s))) \<and>
      contents s = map (map Some) xs \<and>
      (\<forall>x \<in> set xs. length x = unat (itemSize s)))"

text \<open>
  \<open>reach c z s xs\<close>: the stack \<open>s\<close> is reached from \<^verbatim>\<open>initStack(c, z)\<close> by calls of
  \<^verbatim>\<open>push\<close> and \<^verbatim>\<open>pop\<close> that return, and \<open>xs\<close> are the items pushed and not yet popped,
  the last pushed first. (\<^verbatim>\<open>isStackEmpty\<close> and \<^verbatim>\<open>itemExists\<close> leave the stack as it is.)
\<close>

inductive reach :: "uint \<Rightarrow> uint \<Rightarrow> stack \<Rightarrow> byte list list \<Rightarrow> bool"
  for c :: uint and z :: uint where
  reach_init: "initStack c z = Inr s \<Longrightarrow> reach c z s []"
| reach_push: "reach c z s xs \<Longrightarrow> push (Some s) x = Inr s' \<Longrightarrow>
     reach c z s' (take (unat z) x # xs)"
| reach_pop: "reach c z s xs \<Longrightarrow> pop (Some s) = Inr (y, s') \<Longrightarrow> reach c z s' (tl xs)"

text \<open>The number of items that the first \<open>k\<close> tables hold together, for an initial
  size \<open>c\<close>.\<close>

fun total_capacity :: "nat \<Rightarrow> nat \<Rightarrow> nat" where
  "total_capacity c 0 = 0"
| "total_capacity c (Suc k) = c * Suc k + total_capacity c k"

subsection \<open>Example stacks\<close>

text \<open>
  Stacks for items of one byte. \<open>empty_example\<close> is what \<^verbatim>\<open>initStack(2, 1)\<close> returns;
  \<open>one_example\<close>, \<open>full_example\<close> and \<open>three_example\<close> are reached from it by pushing
  \<open>[7]\<close>, by pushing \<open>[1]\<close> and \<open>[2]\<close>, and by pushing \<open>[1]\<close>, \<open>[2]\<close> and \<open>[3]\<close>;
  \<open>drained_example\<close> is \<open>three_example\<close> after one pop, its head table empty and not yet
  freed. \<open>zero_example\<close> is what \<^verbatim>\<open>initStack(0, 1)\<close> returns.
\<close>

definition empty_example :: stack where
  "empty_example =
     \<lparr>head = [\<lparr>Items = [None, None]\<rparr>], stack_i = 0, stack_n = 2, itemSize = 1,
      initialSize = 2\<rparr>"

definition one_example :: stack where
  "one_example =
     \<lparr>head = [\<lparr>Items = [Some 7, None]\<rparr>], stack_i = 1, stack_n = 2, itemSize = 1,
      initialSize = 2\<rparr>"

definition three_example :: stack where
  "three_example =
     \<lparr>head = [\<lparr>Items = [Some 3, None, None, None]\<rparr>, \<lparr>Items = [Some 1, Some 2]\<rparr>],
      stack_i = 1, stack_n = 4, itemSize = 1, initialSize = 2\<rparr>"

definition full_example :: stack where
  "full_example =
     \<lparr>head = [\<lparr>Items = [Some 1, Some 2]\<rparr>], stack_i = 2, stack_n = 2, itemSize = 1,
      initialSize = 2\<rparr>"

definition zero_example :: stack where
  "zero_example =
     \<lparr>head = [\<lparr>Items = []\<rparr>], stack_i = 0, stack_n = 0, itemSize = 1, initialSize = 0\<rparr>"

definition drained_example :: stack where
  "drained_example =
     \<lparr>head = [\<lparr>Items = [Some 3, None, None, None]\<rparr>, \<lparr>Items = [Some 1, Some 2]\<rparr>],
      stack_i = 0, stack_n = 4, itemSize = 1, initialSize = 2\<rparr>"

text \<open>A comparison function for the examples: 1 on equal items, 0 otherwise.\<close>

definition same_bytes :: "byte list \<Rightarrow> byte list \<Rightarrow> cint" where
  "same_bytes a b = (if a = b then 1 else 0)"

subsection \<open>Runs from initStack\<close>

text \<open>\<^verbatim>\<open>initStack(c, z)\<close>, a push of every item of \<open>xs\<close> and as many pops: what the pops
  copy out, in the order of the pops.\<close>

definition lifo_run :: "uint \<Rightarrow> uint \<Rightarrow> byte list list \<Rightarrow> error + byte list list" where
  "lifo_run c z xs =
     (case initStack c z of
        Inl e \<Rightarrow> Inl e
      | Inr s0 \<Rightarrow>
          (case pushes s0 xs of
             Inl e \<Rightarrow> Inl e
           | Inr s \<Rightarrow>
               (case pops s (length xs) of Inl e \<Rightarrow> Inl e | Inr (ys, t) \<Rightarrow> Inr ys)))"

text \<open>\<^verbatim>\<open>initStack(c, z)\<close>, a push of every item of \<open>xs\<close>, and one call of \<^verbatim>\<open>itemExists\<close>: its
  return value.\<close>

definition search_run ::
  "uint \<Rightarrow> uint \<Rightarrow> byte list list \<Rightarrow> byte list \<Rightarrow> cint \<Rightarrow> (byte list \<Rightarrow> byte list \<Rightarrow> cint)
     \<Rightarrow> error + cint" where
  "search_run c z xs item max_depth equal =
     (case initStack c z of
        Inl e \<Rightarrow> Inl e
      | Inr s0 \<Rightarrow>
          (case pushes s0 xs of
             Inl e \<Rightarrow> Inl e
           | Inr s \<Rightarrow>
               (case itemExists (Some s) item max_depth equal of
                  Inl e \<Rightarrow> Inl e
                | Inr (r, t) \<Rightarrow> Inr r)))"

subsection \<open>The search on a list of items\<close>

text \<open>
  What the \<^verbatim>\<open>for\<close> loops of \<^verbatim>\<open>itemExists\<close> do on the items of a table, given as a list with
  the newest first: the same tests in the same order.
\<close>

fun scan_items ::
  "(byte list \<Rightarrow> byte list \<Rightarrow> cint) \<Rightarrow> byte list \<Rightarrow> cint \<Rightarrow> byte list list \<Rightarrow> scan" where
  "scan_items equal item max_depth [] = Next_table max_depth"
| "scan_items equal item max_depth (x # xs) =
     (if max_depth = 0 then Return 0
      else if equal item x \<noteq> 0 then Return 1
      else scan_items equal item (if 0 <s max_depth then max_depth - 1 else max_depth) xs)"

text \<open>
  The search as the specification describes it, on the items the stack holds, the most
  recent first: with a depth \<open>k \<ge> 0\<close> the \<open>k\<close> most recent items are examined, with a
  negative depth all of them, and the answer is 1 when the comparison function is
  non-zero on one of the examined items, 0 otherwise.
\<close>

definition search_spec ::
  "(byte list \<Rightarrow> byte list \<Rightarrow> cint) \<Rightarrow> byte list \<Rightarrow> cint \<Rightarrow> byte list list \<Rightarrow> cint" where
  "search_spec equal item max_depth xs =
     (if \<exists>x \<in> set (if max_depth <s 0 then xs else take (nat (sint max_depth)) xs).
           equal item x \<noteq> 0
      then 1 else 0)"

section \<open>Properties\<close>

subsection \<open>Memory\<close>

lemma load_item_not_Fatal: "load_item buf off k \<noteq> Inl Fatal"
  by (simp add: load_item_def)

lemma store_item_not_Fatal: "store_item buf off item k \<noteq> Inl Fatal"
  by (simp add: store_item_def)

subsection \<open>Arithmetic of \<^verbatim>\<open>unsigned int\<close> and \<^verbatim>\<open>int\<close>\<close>

lemma unat_lt32: "unat (w :: uint) < 4294967296"
  using unsigned_less [of w, where 'a = nat] by simp

lemma unat_mult32: "unat (a :: uint) * unat b < 4294967296 \<Longrightarrow> unat (a * b) = unat a * unat b"
  using unat_mult_lem [of a b] by simp

lemma unat_mult32_le: "unat ((a :: uint) * b) \<le> unat a * unat b"
  by (simp add: unat_word_ariths)

lemma unat_mult32_exact:
  "unat (a :: uint) * unat b \<le> unat (a * b) \<Longrightarrow> unat (a * b) = unat a * unat b"
  using unat_mult32_le [of a b] by simp

lemma unat_add32: "unat (a :: uint) + unat b < 4294967296 \<Longrightarrow> unat (a + b) = unat a + unat b"
  using unat_add_lem [of a b] by simp

lemma unat_grow: "(n :: uint) < n + c \<Longrightarrow> unat (n + c) = unat n + unat c \<and> 0 < unat c"
  using unat_gt_0 unat_plus_simple by force

lemma unat_suc32: "(i :: uint) < n \<Longrightarrow> unat (i + 1) = Suc (unat i)"
proof -
  assume "i < n"
  then have "unat i < unat n" by (simp add: word_less_nat_alt)
  with unat_lt32 [of n] have "unat i + unat (1 :: uint) < 4294967296" by simp
  then show ?thesis using unat_add32 [of i 1] by simp
qed

lemma unat_pred32: "(i :: uint) \<noteq> 0 \<Longrightarrow> unat (i - 1) = unat i - 1"
  by (simp add: unat_minus_one)

lemma unat_sub32: "(c :: uint) \<le> n \<Longrightarrow> unat (n - c) = unat n - unat c"
  by (simp add: unat_sub)

lemma unat_of_nat32: "m < 4294967296 \<Longrightarrow> unat (word_of_nat m :: uint) = m"
  by (simp add: unat_of_nat)

lemma unat_INT_MIN: "unat (- (2 ^ 31) :: cint) = 2147483648"
  by simp

lemma sint_of_nat32: "k < 2147483648 \<Longrightarrow> sint (word_of_nat k :: cint) = int k"
  by (simp add: signed_of_nat signed_take_bit_int_eq_self)

lemma sint_pred32: "0 <s (d :: cint) \<Longrightarrow> sint (d - 1) = sint d - 1"
proof -
  assume "0 <s d"
  then have pos: "0 < sint d"
    by (simp add: word_sless_alt)
  have "sint d < 2 ^ 31"
    using sint_lt [of d] by simp
  with pos have "signed_take_bit 31 (sint d - 1) = sint d - 1"
    by (intro signed_take_bit_int_eq_self) auto
  then show ?thesis
    by (simp add: sint_word_ariths)
qed

subsection \<open>Tables\<close>

lemma slot_cong: "(Suc j) * z \<le> m \<Longrightarrow> take m buf = take m buf' \<Longrightarrow> slot z buf j = slot z buf' j"
proof -
  assume le: "(Suc j) * z \<le> m" and eq: "take m buf = take m buf'"
  have "take (j * z + z) b = take (j * z + z) (take m b)" for b :: buffer
    using le by (simp add: min_def)
  with eq have "take (j * z + z) buf = take (j * z + z) buf'"
    by metis
  then show ?thesis
    by (simp add: slot_def take_drop add.commute)
qed

lemma table_items_cong:
  "take (k * z) buf = take (k * z) buf' \<Longrightarrow> table_items z buf k = table_items z buf' k"
proof (induction k)
  case 0
  then show ?case by simp
next
  case (Suc k)
  have "take (k * z) (take (Suc k * z) b) = take (k * z) b" for b :: buffer
    by (simp add: min_def)
  with Suc.prems have "take (k * z) buf = take (k * z) buf'"
    by metis
  with Suc.IH have "table_items z buf k = table_items z buf' k" .
  moreover have "slot z buf k = slot z buf' k"
    using Suc.prems by (intro slot_cong [of k z "Suc k * z"]) simp_all
  ultimately show ?case by simp
qed

lemma length_table_items [simp]: "length (table_items z buf k) = k"
  by (induction k) simp_all

lemma store_item_slot:
  assumes "store_item buf (i * z) x z = Inr buf'"
  shows "length buf' = length buf" and "slot z buf' i = map Some (take z x)"
    and "take (i * z) buf' = take (i * z) buf" and "length (take z x) = z"
    and "i * z + z \<le> length buf"
proof -
  from assms have len: "z \<le> length x" "i * z + z \<le> length buf"
    and buf': "buf' = take (i * z) buf @ map Some (take z x) @ drop (i * z + z) buf"
    by (auto simp: store_item_def split: if_splits)
  show "length buf' = length buf" using len by (simp add: buf')
  show "slot z buf' i = map Some (take z x)" using len by (simp add: buf' slot_def)
  show "take (i * z) buf' = take (i * z) buf" using len by (simp add: buf')
  show "length (take z x) = z" using len by simp
  show "i * z + z \<le> length buf" by fact
qed

lemma load_item_slot:
  assumes "slot z buf j = map Some x" and "length x = z" and "j * z + z \<le> length buf"
  shows "load_item buf (j * z) z = Inr x"
  using assms by (auto simp: load_item_def slot_def comp_def)

subsection \<open>What one call does\<close>

lemma push_full:
  assumes "stack_i s = stack_n s" and "push (Some s) x = Inr s'"
  shows "stack_n s < stack_n s + initialSize s \<and>
    (\<exists>buf. store_item (replicate (unat ((stack_n s + initialSize s) * itemSize s)) None) 0 x
             (unat (itemSize s)) = Inr buf \<and>
       s' = s\<lparr>head := \<lparr>Items = buf\<rparr> # head s, stack_n := stack_n s + initialSize s,
              stack_i := 1\<rparr>)"
  using assms
  by (auto simp: push_copy_def malloc_def split: if_splits sum.splits)

lemma push_room:
  assumes "stack_i s \<noteq> stack_n s" and "push (Some s) x = Inr s'"
  shows "\<exists>nd rest buf. head s = nd # rest \<and>
       store_item (Items nd) (unat (stack_i s * itemSize s)) x (unat (itemSize s)) = Inr buf \<and>
       s' = s\<lparr>head := \<lparr>Items = buf\<rparr> # rest, stack_i := stack_i s + 1\<rparr>"
  using assms
  by (auto simp: push_copy_def split: list.splits sum.splits)

lemma pop_descend:
  assumes "stack_i s = 0" and "pop (Some s) = Inr (y, s')"
  shows "\<exists>old nd rest. head s = old # nd # rest \<and>
       load_item (Items nd) (unat ((stack_n s - initialSize s - 1) * itemSize s))
         (unat (itemSize s)) = Inr y \<and>
       s' = s\<lparr>head := nd # rest, stack_n := stack_n s - initialSize s,
              stack_i := stack_n s - initialSize s - 1\<rparr>"
  using assms
  by (auto simp: pop_copy_def split: list.splits sum.splits if_splits)

lemma pop_stay:
  assumes "stack_i s \<noteq> 0" and "pop (Some s) = Inr (y, s')"
  shows "\<exists>nd rest. head s = nd # rest \<and>
       load_item (Items nd) (unat ((stack_i s - 1) * itemSize s)) (unat (itemSize s)) = Inr y \<and>
       s' = s\<lparr>stack_i := stack_i s - 1\<rparr>"
  using assms
  by (auto simp: pop_copy_def split: list.splits sum.splits if_splits)

lemma push_fields:
  "push (Some s) x = Inr s' \<Longrightarrow> itemSize s' = itemSize s \<and> initialSize s' = initialSize s"
  by (auto simp: push_copy_def malloc_def split: if_splits list.splits sum.splits)

lemma pop_fields:
  "pop (Some s) = Inr (y, s') \<Longrightarrow> itemSize s' = itemSize s \<and> initialSize s' = initialSize s"
  by (auto simp: pop_copy_def split: if_splits list.splits sum.splits)

lemma pushes_fields:
  "pushes s ys = Inr s' \<Longrightarrow> itemSize s' = itemSize s \<and> initialSize s' = initialSize s"
proof (induction ys arbitrary: s)
  case Nil
  then show ?case by simp
next
  case (Cons y ys)
  then obtain s1 where 1: "push (Some s) y = Inr s1" and 2: "pushes s1 ys = Inr s'"
    by (auto split: sum.splits)
  from push_fields [OF 1] Cons.IH [OF 2] show ?case by simp
qed

lemma pushes_append:
  "pushes s (ys @ zs) = (case pushes s ys of Inl e \<Rightarrow> Inl e | Inr s' \<Rightarrow> pushes s' zs)"
  by (induction ys arbitrary: s) (auto split: sum.splits)

subsection \<open>The invariant\<close>

lemma inv_init:
  assumes "initStack c z = Inr s"
  shows "stack_inv s []" and "itemSize s = z" and "initialSize s = c"
  using assms by (auto simp: initStack_def malloc_def stack_inv_def contents_def)

lemma inv_push:
  assumes inv: "stack_inv s xs" and push: "push (Some s) x = Inr s'"
  shows "stack_inv s' (take (unat (itemSize s)) x # xs)"
proof -
  define z c i n where "z = unat (itemSize s)" and "c = unat (initialSize s)"
    and "i = unat (stack_i s)" and "n = unat (stack_n s)"
  note defs = z_def c_def i_def n_def
  from inv obtain nd rest where hd: "head s = nd # rest"
    and i_le: "i \<le> n" and c_le: "c \<le> n"
    and len: "length (Items nd) = unat (stack_n s * itemSize s)"
    and used: "i * z \<le> length (Items nd)"
    and older: "tables_ok z c rest (n - c)"
    and cont: "contents s = map (map Some) xs"
    and lens: "\<forall>x\<in>set xs. length x = z"
    by (auto simp: stack_inv_def defs word_le_nat_alt split: list.splits)
  from cont hd have cont': "table_items z (Items nd) i @ chain_items z c rest (n - c) (n - c)
      = map (map Some) xs"
    by (simp add: contents_def defs)
  show ?thesis
  proof (cases "stack_i s = stack_n s")
    case True
    define m where "m = unat ((stack_n s + initialSize s) * itemSize s)"
    from push_full [OF True push] obtain buf where
      grow: "stack_n s < stack_n s + initialSize s"
      and st: "store_item (replicate m None) (0 * z) x z = Inr buf"
      and s': "s' = s\<lparr>head := \<lparr>Items = buf\<rparr> # head s,
                 stack_n := stack_n s + initialSize s, stack_i := 1\<rparr>"
      by (auto simp: z_def m_def)
    from unat_grow [OF grow] have n': "unat (stack_n s + initialSize s) = n + c"
      and c_pos: "0 < c"
      by (simp_all add: defs)
    note S = store_item_slot [OF st]
    have i_n: "i = n" using True by (simp add: defs)
    have "n * z \<le> unat (stack_n s * itemSize s)"
      using used len i_n by simp
    then have "unat (stack_n s * itemSize s) = n * z"
      unfolding n_def z_def by (rule unat_mult32_exact)
    then have full: "length (Items nd) = n * z" "n * z < 2 ^ 32"
      using len unat_lt32 [of "stack_n s * itemSize s"] by simp_all
    have 1: "head s' = \<lparr>Items = buf\<rparr> # nd # rest" "unat (stack_i s') = Suc 0"
      "unat (stack_n s') = n + c" "itemSize s' = itemSize s" "initialSize s' = initialSize s"
      by (simp_all add: s' hd n')
    have 2: "length buf = unat (stack_n s' * itemSize s')"
      using S(1) by (simp add: s' m_def)
    have 3: "z \<le> length buf"
      using S(1) S(5) by simp
    have 4: "tables_ok z c (nd # rest) n"
      using c_pos c_le full older by simp
    have 5: "contents s' = map (map Some) (take z x # xs)"
      using cont' S(2) i_n by (simp add: contents_def 1 defs [symmetric])
    have 6: "\<forall>y\<in>set (take z x # xs). length y = z"
      using lens S(4) by simp
    have 7: "stack_i s' \<le> stack_n s'" "initialSize s' \<le> stack_n s'"
      using c_pos by (simp_all add: word_le_nat_alt 1 defs [symmetric])
    show ?thesis
      unfolding stack_inv_def using 2 3 4 5 6 7
      by (simp add: 1 defs [symmetric])
  next
    case False
    then have "i \<noteq> n" by (simp add: defs word_unat_eq_iff)
    with i_le have i_lt: "i < n" by simp
    have "unat (stack_i s) * unat (itemSize s) < 4294967296"
      using used len unat_lt32 [of "stack_n s * itemSize s"] by (simp add: defs)
    then have off: "unat (stack_i s * itemSize s) = i * z"
      unfolding defs by (rule unat_mult32)
    from push_room [OF False push] hd obtain buf where
      st: "store_item (Items nd) (i * z) x z = Inr buf"
      and s': "s' = s\<lparr>head := \<lparr>Items = buf\<rparr> # rest, stack_i := stack_i s + 1\<rparr>"
      by (auto simp: off z_def)
    note S = store_item_slot [OF st]
    have "stack_i s < stack_n s"
      using i_lt by (simp add: word_less_nat_alt defs)
    then have i': "unat (stack_i s + 1) = Suc i"
      unfolding i_def by (rule unat_suc32)
    have 1: "head s' = \<lparr>Items = buf\<rparr> # rest" "unat (stack_i s') = Suc i"
      "stack_n s' = stack_n s" "itemSize s' = itemSize s" "initialSize s' = initialSize s"
      by (simp_all add: s' i')
    have 2: "length buf = unat (stack_n s' * itemSize s')"
      using S(1) len by (simp add: 1)
    have 3: "Suc i * z \<le> length buf"
      using S(1) S(5) by simp
    have "table_items z buf i = table_items z (Items nd) i"
      using S(3) by (rule table_items_cong)
    then have 5: "contents s' = map (map Some) (take z x # xs)"
      using cont' S(2) by (simp add: contents_def 1 defs [symmetric])
    have 6: "\<forall>y\<in>set (take z x # xs). length y = z"
      using lens S(4) by simp
    have 7: "stack_i s' \<le> stack_n s'" "initialSize s' \<le> stack_n s'"
      using i_lt c_le by (simp_all add: word_le_nat_alt 1 defs [symmetric])
    show ?thesis
      unfolding stack_inv_def using 2 3 older 5 6 7
      by (simp add: 1 defs [symmetric])
  qed
qed

lemma map_map_Some_Cons:
  assumes "a # as = map (map Some) xs"
  shows "xs \<noteq> []" and "a = map Some (hd xs)" and "as = map (map Some) (tl xs)"
  using assms by (cases xs; simp)+

lemma inv_pop:
  assumes inv: "stack_inv s xs"
  shows "(xs = [] \<longrightarrow> pop (Some s) = Inl Fatal) \<and>
    (xs \<noteq> [] \<longrightarrow>
       (let s' = (if stack_i s = 0
                  then s\<lparr>head := tl (head s), stack_n := stack_n s - initialSize s,
                         stack_i := stack_n s - initialSize s - 1\<rparr>
                  else s\<lparr>stack_i := stack_i s - 1\<rparr>)
        in pop (Some s) = Inr (hd xs, s') \<and> stack_inv s' (tl xs)))"
proof -
  define z c i n where "z = unat (itemSize s)" and "c = unat (initialSize s)"
    and "i = unat (stack_i s)" and "n = unat (stack_n s)"
  note defs = z_def c_def i_def n_def
  from inv obtain nd rest where hd: "head s = nd # rest"
    and i_le: "i \<le> n" and c_le: "c \<le> n"
    and len: "length (Items nd) = unat (stack_n s * itemSize s)"
    and used: "i * z \<le> length (Items nd)"
    and older: "tables_ok z c rest (n - c)"
    and cont: "contents s = map (map Some) xs"
    and lens: "\<forall>x\<in>set xs. length x = z"
    by (auto simp: stack_inv_def defs word_le_nat_alt split: list.splits)
  from cont hd have cont': "table_items z (Items nd) i @ chain_items z c rest (n - c) (n - c)
      = map (map Some) xs"
    by (simp add: contents_def defs)
  have lens_tl: "\<forall>x\<in>set (tl xs). length x = z"
    using lens by (cases xs) simp_all
  consider (empty) "stack_i s = 0" "rest = []"
    | (descend) nd2 rest2 where "stack_i s = 0" "rest = nd2 # rest2"
    | (stay) "stack_i s \<noteq> 0"
    by (cases rest) auto
  then show ?thesis
  proof cases
    case empty
    then have "i = 0" by (simp add: defs)
    with cont' empty have "xs = []" by simp
    moreover have "pop (Some s) = Inl Fatal"
      using empty hd by simp
    ultimately show ?thesis by simp
  next
    case descend
    define m where "m = n - c"
    define N where "N = stack_n s - initialSize s"
    from older descend have c_pos: "0 < c" and c_m: "c \<le> m"
      and len2: "length (Items nd2) = m * z" and bound2: "m * z < 2 ^ 32"
      and older2: "tables_ok z c rest2 (m - c)"
      by (simp_all add: m_def)
    have i0: "i = 0" using descend by (simp add: defs)
    have "initialSize s \<le> stack_n s"
      using c_le by (simp add: word_le_nat_alt defs)
    then have N: "unat N = m"
      unfolding N_def m_def defs by (rule unat_sub32)
    with c_pos c_m have "N \<noteq> 0"
      by (auto simp: unat_eq_zero [symmetric] simp del: unat_eq_zero)
    then have N1: "unat (N - 1) = m - 1"
      using unat_pred32 [of N] N by simp
    have "(m - 1) * z \<le> m * z" by simp
    also have "\<dots> < 4294967296" using bound2 by simp
    finally have "unat (N - 1) * unat (itemSize s) < 4294967296"
      by (simp only: N1 z_def)
    then have off: "unat ((N - 1) * itemSize s) = (m - 1) * z"
      using unat_mult32 [of "N - 1" "itemSize s"] by (simp add: N1 z_def)
    have "unat N * unat (itemSize s) < 4294967296"
      using bound2 by (simp add: N z_def)
    then have sz: "unat (N * itemSize s) = m * z"
      using unat_mult32 [of N "itemSize s"] by (simp add: N z_def)
    from c_pos c_m have m: "m = Suc (m - 1)" by simp
    have "slot z (Items nd2) (m - 1) #
        (table_items z (Items nd2) (m - 1) @ chain_items z c rest2 (m - c) (m - c))
        = map (map Some) xs"
      using cont' i0 descend m table_items.simps(2) [of z "Items nd2" "m - 1"]
      by (simp add: m_def [symmetric])
    note C = map_map_Some_Cons [OF this]
    have "(m - 1) * z + z = m * z"
      using m by (metis mult_Suc add.commute)
    then have "load_item (Items nd2) ((m - 1) * z) z = Inr (hd xs)"
      using C(1) C(2) lens len2 by (intro load_item_slot) simp_all
    then have pop: "pop (Some s) = Inr (hd xs, s\<lparr>head := nd2 # rest2, stack_n := N,
        stack_i := N - 1\<rparr>)"
      using descend hd by (simp add: pop_copy_def N_def [symmetric] off z_def [symmetric])
    have "stack_inv (s\<lparr>head := nd2 # rest2, stack_n := N, stack_i := N - 1\<rparr>) (tl xs)"
      unfolding stack_inv_def using C(3) lens_tl older2 len2 c_m
      by (simp add: contents_def defs [symmetric] N N1 sz word_le_nat_alt)
    with pop C(1) show ?thesis
      using descend hd by (simp add: N_def)
  next
    case stay
    then have i1: "unat (stack_i s - 1) = i - 1" and i_pos: "0 < i"
      using unat_pred32 [of "stack_i s"]
      by (auto simp: defs unat_eq_zero [symmetric] simp del: unat_eq_zero)
    then have i: "i = Suc (i - 1)" by simp
    have "(i - 1) * z \<le> i * z" by simp
    also have "\<dots> < 4294967296"
      using used len unat_lt32 [of "stack_n s * itemSize s"] by simp
    finally have "unat (stack_i s - 1) * unat (itemSize s) < 4294967296"
      by (simp only: i1 z_def)
    then have off: "unat ((stack_i s - 1) * itemSize s) = (i - 1) * z"
      using unat_mult32 [of "stack_i s - 1" "itemSize s"] by (simp add: i1 z_def)
    have "slot z (Items nd) (i - 1) #
        (table_items z (Items nd) (i - 1) @ chain_items z c rest (n - c) (n - c))
        = map (map Some) xs"
      using cont' i table_items.simps(2) [of z "Items nd" "i - 1"] by simp
    note C = map_map_Some_Cons [OF this]
    have "(i - 1) * z + z = i * z"
      using i by (metis mult_Suc add.commute)
    then have "load_item (Items nd) ((i - 1) * z) z = Inr (hd xs)"
      using C(1) C(2) lens used by (intro load_item_slot) simp_all
    then have pop: "pop (Some s) = Inr (hd xs, s\<lparr>stack_i := stack_i s - 1\<rparr>)"
      using stay hd by (simp add: pop_copy_def off z_def [symmetric])
    have used': "(i - 1) * z \<le> length (Items nd)"
      using \<open>(i - 1) * z \<le> i * z\<close> used by (rule le_trans)
    have "i - 1 \<le> n" using i_le by simp
    then have "stack_inv (s\<lparr>stack_i := stack_i s - 1\<rparr>) (tl xs)"
      unfolding stack_inv_def using C(3) lens_tl older len used' c_le hd
      by (simp add: contents_def defs [symmetric] i1 word_le_nat_alt)
    with pop C(1) show ?thesis
      using stay by simp
  qed
qed

lemma reach_inv:
  assumes "reach c z s xs"
  shows "stack_inv s xs \<and> itemSize s = z \<and> initialSize s = c"
  using assms
proof (induction rule: reach.induct)
  case (reach_init s)
  then show ?case by (simp add: inv_init)
next
  case (reach_push s xs x s')
  then show ?case
    using inv_push [of s xs x s'] push_fields [of s x s'] by simp
next
  case (reach_pop s xs y s')
  then have "stack_inv s xs" by simp
  from inv_pop [OF this] reach_pop.hyps(2) have "stack_inv s' (tl xs)"
    by (cases "xs = []") (auto simp: Let_def)
  then show ?case
    using reach_pop pop_fields [of s y s'] by simp
qed

lemma inv_isStackEmpty:
  assumes "stack_inv s xs"
  shows "isStackEmpty (Some s) = Inr (if xs = [] then 1 else 0, s)"
proof -
  from inv_pop [OF assms] have "xs = [] \<longleftrightarrow> pop (Some s) = Inl Fatal"
    by (auto simp: Let_def)
  moreover from assms obtain nd rest where "head s = nd # rest"
    by (auto simp: stack_inv_def split: list.splits)
  ultimately show ?thesis
    by (auto simp: pop_copy_def load_item_not_Fatal split: if_splits list.splits sum.splits)
qed

lemma inv_pushes:
  "stack_inv s xs \<Longrightarrow> pushes s ys = Inr s' \<Longrightarrow>
     stack_inv s' (rev (map (take (unat (itemSize s))) ys) @ xs) \<and> itemSize s' = itemSize s"
proof (induction ys arbitrary: s xs)
  case Nil
  then show ?case by simp
next
  case (Cons y ys)
  from Cons.prems(2) obtain s1 where 1: "push (Some s) y = Inr s1" and 2: "pushes s1 ys = Inr s'"
    by (auto split: sum.splits)
  from inv_push [OF Cons.prems(1) 1] push_fields [OF 1] Cons.IH [OF _ 2]
  show ?case by simp
qed

lemma inv_pops:
  "stack_inv s xs \<Longrightarrow> k \<le> length xs \<Longrightarrow>
     \<exists>s'. pops s k = Inr (take k xs, s') \<and> stack_inv s' (drop k xs)"
proof (induction k arbitrary: s xs)
  case 0
  then show ?case by simp
next
  case (Suc k)
  then obtain x xs' where xs: "xs = x # xs'" by (cases xs) auto
  from inv_pop [OF Suc.prems(1)] xs obtain s1 where
    1: "pop (Some s) = Inr (x, s1)" and 2: "stack_inv s1 xs'"
    by (auto simp: Let_def)
  from Suc.IH [OF 2] Suc.prems(2) xs obtain s' where
    "pops s1 k = Inr (take k xs', s')" "stack_inv s' (drop k xs')"
    by auto
  with 1 xs show ?case by simp
qed

lemma reach_pushes:
  "reach c z s xs \<Longrightarrow> pushes s ys = Inr s' \<Longrightarrow>
     reach c z s' (rev (map (take (unat z)) ys) @ xs)"
proof (induction ys arbitrary: s xs)
  case Nil
  then show ?case by simp
next
  case (Cons y ys)
  from Cons.prems(2) obtain s1 where 1: "push (Some s) y = Inr s1" and 2: "pushes s1 ys = Inr s'"
    by (auto split: sum.splits)
  from Cons.IH [OF reach_push [OF Cons.prems(1) 1] 2]
  show ?case by simp
qed

subsection \<open>The sizes of the tables and the number of items\<close>

lemma tables_ok_capacity: "tables_ok z c rest m \<Longrightarrow> m = c * length rest"
  by (induction rest arbitrary: m) auto

lemma tables_ok_nth:
  "tables_ok z c rest m \<Longrightarrow> k < length rest \<Longrightarrow>
     length (Items (rev rest ! k)) = c * Suc k * z \<and> c * Suc k * z < 2 ^ 32"
proof (induction rest arbitrary: m)
  case Nil
  then show ?case by simp
next
  case (Cons nd rest)
  then have ok: "tables_ok z c rest (m - c)" and m: "m = c * Suc (length rest)"
    and len: "length (Items nd) = m * z" "m * z < 2 ^ 32"
    using tables_ok_capacity [of z c "nd # rest" m] by simp_all
  show ?case
  proof (cases "k < length rest")
    case True
    with Cons.IH [OF ok] show ?thesis by (simp add: nth_append)
  next
    case False
    with Cons.prems have "k = length rest" by simp
    with len m show ?thesis by (simp add: nth_append)
  qed
qed

lemma inv_capacity:
  assumes "stack_inv s xs"
  shows "unat (stack_n s) = unat (initialSize s) * length (head s)"
proof -
  from assms obtain nd rest where hd: "head s = nd # rest"
    and c_le: "unat (initialSize s) \<le> unat (stack_n s)"
    and older: "tables_ok (unat (itemSize s)) (unat (initialSize s)) rest
       (unat (stack_n s) - unat (initialSize s))"
    by (auto simp: stack_inv_def word_le_nat_alt split: list.splits)
  from tables_ok_capacity [OF older] c_le
  have "unat (stack_n s) = unat (initialSize s) * length rest + unat (initialSize s)"
    by simp
  then show ?thesis by (simp add: hd)
qed

lemma total_capacity_mono: "a \<le> b \<Longrightarrow> total_capacity c a \<le> total_capacity c b"
  by (induction b) (auto simp: le_Suc_eq)

lemma total_capacity_less: "total_capacity c a < total_capacity c b \<Longrightarrow> a < b"
  using total_capacity_mono [of b a c] by (cases "a < b") simp_all

lemma length_chain_items:
  "tables_ok z c rest m \<Longrightarrow> length (chain_items z c rest m m) = total_capacity c (length rest)"
proof (induction rest arbitrary: m)
  case Nil
  then show ?case by simp
next
  case (Cons nd rest)
  then have "length (chain_items z c rest (m - c) (m - c)) = total_capacity c (length rest)"
    by simp
  moreover have "m = c * Suc (length rest)"
    using tables_ok_capacity [OF Cons.prems] by simp
  ultimately show ?case by simp
qed

lemma inv_length:
  assumes "stack_inv s xs"
  shows "length xs + unat (stack_n s) =
    unat (stack_i s) + total_capacity (unat (initialSize s)) (length (head s))"
proof -
  from assms obtain nd rest where hd: "head s = nd # rest"
    and c_le: "unat (initialSize s) \<le> unat (stack_n s)"
    and older: "tables_ok (unat (itemSize s)) (unat (initialSize s)) rest
       (unat (stack_n s) - unat (initialSize s))"
    and cont: "contents s = map (map Some) xs"
    by (auto simp: stack_inv_def word_le_nat_alt split: list.splits)
  from cont have "length xs = length (contents s)" by simp
  also have "\<dots> = unat (stack_i s) + total_capacity (unat (initialSize s)) (length rest)"
    using length_chain_items [OF older] by (simp add: contents_def hd)
  finally show ?thesis
    using inv_capacity [OF assms] by (simp add: hd)
qed

subsection \<open>Pushes that return\<close>

lemma push_succeeds:
  assumes inv: "stack_inv s xs" and x: "unat (itemSize s) \<le> length x"
    and c_pos: "0 < unat (initialSize s)"
    and room: "length xs < total_capacity (unat (initialSize s)) K"
    and bound: "unat (initialSize s) * K * max 1 (unat (itemSize s)) < 2 ^ 32"
  shows "\<exists>s'. push (Some s) x = Inr s'"
proof -
  define z c i n k where "z = unat (itemSize s)" and "c = unat (initialSize s)"
    and "i = unat (stack_i s)" and "n = unat (stack_n s)" and "k = length (head s)"
  note defs = z_def c_def i_def n_def k_def
  from inv obtain nd rest where hd: "head s = nd # rest"
    and i_le: "i \<le> n"
    and len: "length (Items nd) = unat (stack_n s * itemSize s)"
    and used: "i * z \<le> length (Items nd)"
    by (auto simp: stack_inv_def defs word_le_nat_alt split: list.splits)
  have cap: "n = c * k"
    using inv_capacity [OF inv] by (simp add: defs)
  have count: "length xs + n = i + total_capacity c k"
    using inv_length [OF inv] by (simp add: defs)
  have big: "c * K * z \<le> c * K * max 1 z" "c * K \<le> c * K * max 1 z"
    by simp_all
  have bound': "c * K * max 1 z < 4294967296"
    using bound by (simp add: defs)
  show ?thesis
  proof (cases "stack_i s = stack_n s")
    case True
    then have "i = n" by (simp add: defs)
    with count room have "total_capacity c k < total_capacity c K"
      by (simp add: defs)
    then have "Suc k \<le> K"
      using total_capacity_less [of c k K] by simp
    then have le: "c * Suc k \<le> c * K"
      by (rule mult_le_mono2)
    then have "c * Suc k * z \<le> c * K * z"
      by (rule mult_le_mono1)
    with big bound' have 1: "c * Suc k * z < 4294967296" by linarith
    from le big bound' have 2: "c * Suc k < 4294967296" by linarith
    have nc: "n + c = c * Suc k" using cap by simp
    have sum: "unat (stack_n s + initialSize s) = n + c"
      using 2 nc unat_add32 [of "stack_n s" "initialSize s"] by (simp add: defs)
    with c_pos have grow: "\<not> stack_n s + initialSize s \<le> stack_n s"
      by (simp add: word_le_nat_alt defs)
    have "(n + c) * z < 4294967296"
      using 1 by (simp only: nc)
    then have "unat (stack_n s + initialSize s) * unat (itemSize s) < 4294967296"
      by (simp only: sum z_def)
    then have "unat ((stack_n s + initialSize s) * itemSize s) = (n + c) * z"
      using unat_mult32 [of "stack_n s + initialSize s" "itemSize s"]
      by (simp only: sum z_def)
    moreover have "z \<le> (n + c) * z"
      using c_pos by (simp add: defs)
    ultimately have "z \<le> unat ((stack_n s + initialSize s) * itemSize s)"
      by simp
    with True grow x show ?thesis
      by (simp add: push_copy_def malloc_def store_item_def z_def)
  next
    case False
    then have "i \<noteq> n" by (simp add: defs word_unat_eq_iff)
    with i_le have i_lt: "i < n" by simp
    have "total_capacity c k = n + total_capacity c (k - 1)"
      using hd cap by (simp add: defs)
    with count have "total_capacity c (k - 1) \<le> length xs" by simp
    with room have "total_capacity c (k - 1) < total_capacity c K"
      by (simp add: defs)
    then have "k \<le> K"
      using total_capacity_less [of c "k - 1" K] by simp
    then have "c * k \<le> c * K"
      by (rule mult_le_mono2)
    then have "c * k * z \<le> c * K * z"
      by (rule mult_le_mono1)
    with big bound' have "c * k * z < 4294967296" by linarith
    then have "unat (stack_n s) * unat (itemSize s) < 4294967296"
      by (simp only: cap [symmetric] n_def z_def)
    then have size: "length (Items nd) = n * z"
      using len unat_mult32 [of "stack_n s" "itemSize s"] by (simp only: n_def z_def)
    have "Suc i * z \<le> n * z"
      using i_lt by (intro mult_le_mono1) simp
    then have fits: "i * z + z \<le> length (Items nd)"
      using size by simp
    have "unat (stack_i s) * unat (itemSize s) < 4294967296"
      using used len unat_lt32 [of "stack_n s * itemSize s"] by (simp add: defs)
    then have "unat (stack_i s * itemSize s) = i * z"
      unfolding defs by (rule unat_mult32)
    with False fits x hd show ?thesis
      by (simp add: push_copy_def store_item_def z_def)
  qed
qed

lemma pushes_succeed:
  "stack_inv s xs \<Longrightarrow> \<forall>y\<in>set ys. unat (itemSize s) \<le> length y \<Longrightarrow>
   0 < unat (initialSize s) \<Longrightarrow>
   length xs + length ys \<le> total_capacity (unat (initialSize s)) K \<Longrightarrow>
   unat (initialSize s) * K * max 1 (unat (itemSize s)) < 2 ^ 32 \<Longrightarrow>
   \<exists>s'. pushes s ys = Inr s'"
proof (induction ys arbitrary: s xs)
  case Nil
  then show ?case by simp
next
  case (Cons y ys)
  from Cons.prems have "\<exists>s1. push (Some s) y = Inr s1"
    by (intro push_succeeds [of s xs y K]) simp_all
  then obtain s1 where 1: "push (Some s) y = Inr s1" ..
  note inv1 = inv_push [OF Cons.prems(1) 1]
  note f = push_fields [OF 1]
  from Cons.prems f have "\<exists>s'. pushes s1 ys = Inr s'"
    by (intro Cons.IH [OF inv1]) simp_all
  with 1 show ?case by simp
qed

lemma lifo_pushed:
  assumes lens: "\<forall>x\<in>set xs. length x = unat z"
    and init: "initStack c z = Inr s0" and pushed: "pushes s0 xs = Inr s"
  shows "lifo_run c z xs = Inr (rev xs)"
proof -
  from inv_init [OF init] have inv0: "stack_inv s0 []" and z: "itemSize s0 = z"
    by simp_all
  from lens have "map (take (unat z)) xs = xs"
    by (simp add: map_idI)
  with inv_pushes [OF inv0 pushed] have "stack_inv s (rev xs)"
    by (simp add: z)
  from inv_pops [OF this, of "length xs"] obtain t where "pops s (length xs) = Inr (rev xs, t)"
    by auto
  with init pushed show ?thesis
    by (simp add: lifo_run_def)
qed

subsection \<open>The walk of itemExists\<close>

lemma while_loop_frame:
  "while_loop s chain item equal i n max_depth = Inr (r, s') \<Longrightarrow> s' = s"
  by (induction chain arbitrary: i n max_depth)
    (auto split: sum.splits scan.splits if_splits)

lemma scan_items_append:
  "scan_items equal item d (ys @ zs) =
     (case scan_items equal item d ys of
        Return r \<Rightarrow> Return r
      | Next_table d' \<Rightarrow> scan_items equal item d' zs)"
  by (induction ys arbitrary: d) simp_all

lemma scan_items_spec:
  "(case scan_items equal item d xs of Return r \<Rightarrow> r | Next_table d' \<Rightarrow> 0) =
     search_spec equal item d xs"
proof (induction xs arbitrary: d)
  case Nil
  then show ?case by (simp add: search_spec_def)
next
  case (Cons x xs)
  show ?case
  proof (cases "d = 0")
    case True
    then show ?thesis by (simp add: search_spec_def word_sless_alt)
  next
    case nz: False
    show ?thesis
    proof (cases "0 <s d")
      case True
      then have pos: "0 < sint d" by (simp add: word_sless_alt)
      then have "take (nat (sint d)) (x # xs) = x # take (nat (sint (d - 1))) xs"
        using sint_pred32 [OF True] by (simp add: take_Cons' nat_diff_distrib)
      moreover have "\<not> d <s 0" "\<not> d - 1 <s 0"
        using pos sint_pred32 [OF True] by (simp_all add: word_sless_alt)
      ultimately show ?thesis
        using True nz Cons.IH [of "d - 1"] by (simp add: search_spec_def)
    next
      case False
      moreover have "sint d \<noteq> 0"
        using nz signed_eq_0_iff [of d, where 'a = int] by simp
      ultimately have "d <s 0"
        by (simp add: word_sless_alt)
      with False nz Cons.IH [of d] show ?thesis
        by (simp add: search_spec_def)
    qed
  qed
qed

lemma for_loop_table:
  assumes z: "unat (itemSize s) = z"
    and bytes: "length (Items nd) < 4294967296"
  shows "k < 2147483648 \<Longrightarrow> k * z \<le> length (Items nd) \<Longrightarrow>
     table_items z (Items nd) k = map (map Some) ys \<Longrightarrow> \<forall>y\<in>set ys. length y = z \<Longrightarrow>
     for_loop s nd item equal (word_of_nat k - 1) d = Inr (scan_items equal item d ys)"
proof (induction k arbitrary: ys d)
  case 0
  then have "ys = []" by simp
  moreover have "\<not> 0 \<le>s (- 1 :: cint)"
    by (simp add: word_sle_eq)
  ultimately show ?case
    by (simp add: for_loop.simps)
next
  case (Suc k)
  from Suc.prems(3) obtain y ys' where ys: "ys = y # ys'"
    and y: "slot z (Items nd) k = map Some y"
    and ys': "table_items z (Items nd) k = map (map Some) ys'"
    by (cases ys) auto
  have k: "k < 2147483648" using Suc.prems(1) by simp
  have i: "word_of_nat (Suc k) - 1 = (word_of_nat k :: cint)"
    by simp
  have nonneg: "0 \<le>s (word_of_nat k :: cint)"
    using sint_of_nat32 [OF k] by (simp add: word_sle_eq)
  have "k * z \<le> Suc k * z" by simp
  also have "\<dots> \<le> length (Items nd)" by (rule Suc.prems(2))
  finally have kz: "k * z \<le> length (Items nd)" .
  with bytes have "k * z < 4294967296" by simp
  moreover have uk: "unat (word_of_nat k :: uint) = k"
    using k by (intro unat_of_nat32) simp
  ultimately have "unat (word_of_nat k :: uint) * unat (itemSize s) < 4294967296"
    by (simp only: z)
  then have off: "unat (word_of_nat k * itemSize s) = k * z"
    using unat_mult32 [of "word_of_nat k" "itemSize s"] by (simp only: uk z)
  have "k * z + z \<le> length (Items nd)"
    using Suc.prems(2) by (simp add: add.commute)
  then have load: "load_item (Items nd) (k * z) z = Inr y"
    using y Suc.prems(4) ys by (intro load_item_slot) simp_all
  have rec: "for_loop s nd item equal (word_of_nat k - 1) d' = Inr (scan_items equal item d' ys')"
    for d'
    using k kz ys' Suc.prems(4) ys by (intro Suc.IH) simp_all
  show ?case
    unfolding i
    by (subst for_loop.simps) (simp add: nonneg off z load rec ys)
qed

lemma while_loop_tables:
  assumes z: "unat (itemSize s) = z" and c: "unat (initialSize s) = c"
  shows "k \<le> m \<Longrightarrow> m < 2147483648 \<Longrightarrow> c \<le> m \<Longrightarrow> k * z \<le> length (Items nd) \<Longrightarrow>
     length (Items nd) < 4294967296 \<Longrightarrow> tables_ok z c rest (m - c) \<Longrightarrow>
     chain_items z c (nd # rest) k m = map (map Some) xs \<Longrightarrow> \<forall>x\<in>set xs. length x = z \<Longrightarrow>
     while_loop s (nd # rest) item equal (word_of_nat k - 1) (word_of_nat m) d =
       Inr (case scan_items equal item d xs of Return r \<Rightarrow> r | Next_table d' \<Rightarrow> 0, s)"
proof (induction rest arbitrary: nd k m xs d)
  case Nil
  then have items: "table_items z (Items nd) k = map (map Some) xs"
    by simp
  from Nil.prems have "k < 2147483648" by simp
  from for_loop_table [OF z Nil.prems(5) this Nil.prems(4) items Nil.prems(8)]
  have loop: "for_loop s nd item equal (word_of_nat k - 1) d = Inr (scan_items equal item d xs)" .
  have "m = c" using Nil.prems(3,6) by simp
  then have "word_of_nat m - initialSize s = 0"
    using c of_nat_unat [of "initialSize s", where 'a = uint] by simp
  then show ?case
    by (simp add: loop split: scan.splits)
next
  case (Cons nd2 rest)
  from Cons.prems(7) obtain ys xs' where xs: "xs = ys @ xs'"
    and ys: "table_items z (Items nd) k = map (map Some) ys"
    and xs': "chain_items z c (nd2 # rest) (m - c) (m - c) = map (map Some) xs'"
    by (auto simp: map_eq_append_conv append_eq_map_conv)
  from Cons.prems have "k < 2147483648" by simp
  from for_loop_table [OF z Cons.prems(5) this Cons.prems(4) ys] Cons.prems(8) xs
  have loop: "for_loop s nd item equal (word_of_nat k - 1) d = Inr (scan_items equal item d ys)"
    by simp
  from Cons.prems(6) have ok: "c \<le> m - c" "length (Items nd2) = (m - c) * z"
    "(m - c) * z < 4294967296" "tables_ok z c rest (m - c - c)"
    by simp_all
  have "word_of_nat m - word_of_nat c = (word_of_nat (m - c) :: uint)"
    using Cons.prems(3) by (simp add: of_nat_diff)
  then have n': "word_of_nat m - initialSize s = (word_of_nat (m - c) :: uint)"
    using c of_nat_unat [of "initialSize s", where 'a = uint] by simp
  have "unat (word_of_nat (m - c) :: uint) = m - c"
    using Cons.prems(2) by (intro unat_of_nat32) simp
  with Cons.prems(2) have "unat (word_of_nat (m - c) :: uint) \<noteq> unat (- (2 ^ 31) :: cint)"
    by (simp only: unat_INT_MIN)
  then have not_min: "(word_of_nat (m - c) :: uint) \<noteq> - (2 ^ 31)"
    by metis
  have rec: "while_loop s (nd2 # rest) item equal (word_of_nat (m - c) - 1)
      (word_of_nat (m - c)) d' =
      Inr (case scan_items equal item d' xs' of Return r \<Rightarrow> r | Next_table d'' \<Rightarrow> 0, s)" for d'
    using Cons.prems(2,8) ok xs' xs by (intro Cons.IH) simp_all
  show ?case
    using not_min
    by (subst while_loop.simps)
      (simp add: loop n' rec xs scan_items_append del: while_loop.simps split: scan.splits)
qed

text \<open>
  On a reached stack whose head table has less than \<open>2\<^sup>3\<^sup>1\<close> items, \<^verbatim>\<open>itemExists\<close> returns,
  leaves the stack as it is, and its result is the search of the specification on the
  items pushed and not yet popped, the most recent first: across the tables, within
  the depth, 0 on the empty stack.
\<close>

lemma itemExists_small:
  assumes r: "reach c z s xs" and small: "unat (stack_n s) < 2147483648"
  shows "itemExists (Some s) item d equal = Inr (search_spec equal item d xs, s)"
proof -
  from reach_inv [OF r] have inv: "stack_inv s xs" and z: "itemSize s = z"
    and c: "initialSize s = c"
    by simp_all
  from inv obtain nd rest where hd: "head s = nd # rest"
    and i_le: "unat (stack_i s) \<le> unat (stack_n s)"
    and c_le: "unat c \<le> unat (stack_n s)"
    and len: "length (Items nd) = unat (stack_n s * itemSize s)"
    and used: "unat (stack_i s) * unat z \<le> length (Items nd)"
    and older: "tables_ok (unat z) (unat c) rest (unat (stack_n s) - unat c)"
    and cont: "chain_items (unat z) (unat c) (nd # rest) (unat (stack_i s)) (unat (stack_n s))
      = map (map Some) xs"
    and lens: "\<forall>x\<in>set xs. length x = unat z"
    by (auto simp: stack_inv_def contents_def z c word_le_nat_alt split: list.splits)
  have bytes: "length (Items nd) < 4294967296"
    using len unat_lt32 [of "stack_n s * itemSize s"] by simp
  have "while_loop s (nd # rest) item equal (word_of_nat (unat (stack_i s)) - 1)
      (word_of_nat (unat (stack_n s))) d =
      Inr (case scan_items equal item d xs of Return r \<Rightarrow> r | Next_table d' \<Rightarrow> 0, s)"
    using i_le small c_le used bytes older cont lens
    by (intro while_loop_tables [of s "unat z" "unat c"]) (simp_all add: z c)
  then show ?thesis
    by (simp add: hd scan_items_spec)
qed

subsection \<open>The example stacks\<close>

lemma initStack_example: "initStack 2 1 = Inr empty_example"
  by (simp add: initStack_def malloc_def empty_example_def) (simp add: numeral_2_eq_2)

lemma push_example: "push (Some empty_example) [7] = Inr one_example"
  by (simp add: empty_example_def one_example_def push_copy_def store_item_def)

lemma reach_empty_example: "reach 2 1 empty_example []"
  using initStack_example by (rule reach_init)

lemma reach_one_example: "reach 2 1 one_example [[7]]"
  using reach_push [OF reach_empty_example push_example] by simp

lemma pushes_example: "pushes empty_example [[1], [2], [3]] = Inr three_example"
  by (simp add: empty_example_def three_example_def push_copy_def store_item_def malloc_def)
    (simp add: numeral_3_eq_3)

lemma reach_three_example: "reach 2 1 three_example [[3], [2], [1]]"
  using reach_pushes [OF reach_empty_example pushes_example] by simp

lemma push_full_example: "push (Some full_example) [3] = Inr three_example"
  by (simp add: full_example_def three_example_def push_copy_def store_item_def malloc_def)
    (simp add: numeral_3_eq_3)

lemma pop_three_example: "pop (Some three_example) = Inr ([3], drained_example)"
  by (simp add: three_example_def drained_example_def pop_copy_def load_item_def)

lemma reach_drained_example: "reach 2 1 drained_example [[2], [1]]"
  using reach_pop [OF reach_three_example pop_three_example] by simp

lemma itemExists_example:
  "itemExists (Some three_example) [1] (- 1) same_bytes = Inr (1, three_example)"
  by (simp add: three_example_def for_loop.simps load_item_def same_bytes_def word_sle_eq
      word_sless_alt)

subsection \<open>Last in, first out\<close>

text \<open>
  Claim C1, amended. For every item size \<open>z\<close>, every initial size \<open>c\<close> and every list of
  items of \<open>z\<close> bytes: when the pushes of all the items return, as many pops return the
  items in the reverse order; and the pushes do return when \<open>c \<ge> 1\<close> and the items fit
  into the first \<open>K\<close> tables, the largest of which, \<open>c * K\<close> items of \<open>z\<close> bytes, stays
  below \<open>2\<^sup>3\<^sup>2\<close> bytes (and \<open>c * K\<close> below \<open>2\<^sup>3\<^sup>2\<close>), for any \<open>K\<close>.
\<close>

theorem lifo_order:
  assumes "\<forall>x\<in>set xs. length x = unat z"
  shows "(initStack c z = Inr s0 \<and> pushes s0 xs = Inr s \<longrightarrow>
            lifo_run c z xs = Inr (rev xs)) \<and>
         (0 < unat c \<and> length xs \<le> total_capacity (unat c) K \<and>
          unat c * K * max 1 (unat z) < 2 ^ 32 \<longrightarrow>
            lifo_run c z xs = Inr (rev xs))"
proof (intro conjI impI)
  assume "initStack c z = Inr s0 \<and> pushes s0 xs = Inr s"
  with assms show "lifo_run c z xs = Inr (rev xs)"
    by (intro lifo_pushed [of xs z c s0 s]) simp_all
next
  assume a: "0 < unat c \<and> length xs \<le> total_capacity (unat c) K \<and>
          unat c * K * max 1 (unat z) < 2 ^ 32"
  obtain t0 where init: "initStack c z = Inr t0"
    by (simp add: initStack_def malloc_def)
  note i = inv_init [OF init]
  from a assms have "\<exists>t. pushes t0 xs = Inr t"
    by (intro pushes_succeed [OF i(1), of xs K]) (simp_all add: i)
  then obtain t where "pushes t0 xs = Inr t" ..
  with assms init show "lifo_run c z xs = Inr (rev xs)"
    by (intro lifo_pushed [of xs z c t0 t]) simp_all
qed

theorem lifo_order_witness:
  "list_all (\<lambda>x. length x = unat (1 :: uint)) [[1], [2], [3 :: byte]] \<and>
   initStack 2 1 = Inr empty_example \<and>
   pushes empty_example [[1], [2], [3]] = Inr three_example \<and>
   lifo_run 2 1 [[1], [2], [3]] = Inr [[3], [2], [1]] \<and>
   list_all (\<lambda>x. length x = unat (1 :: uint)) [[1], [2], [3], [4], [5], [6], [7 :: byte]] \<and>
   0 < unat (2 :: uint) \<and>
   length [[1], [2], [3], [4], [5], [6], [7 :: byte]] \<le> total_capacity (unat (2 :: uint)) 3 \<and>
   unat (2 :: uint) * 3 * max 1 (unat (1 :: uint)) < 2 ^ 32 \<and>
   lifo_run 2 1 [[1], [2], [3], [4], [5], [6], [7]] = Inr [[7], [6], [5], [4], [3], [2], [1]]"
  using lifo_order [of "[[1], [2], [3]]" 1 2 empty_example three_example 0]
    lifo_order [of "[[1], [2], [3], [4], [5], [6], [7]]" 1 2 empty_example empty_example 3]
    initStack_example pushes_example
  by (simp add: numeral_3_eq_3)

text \<open>
  With initial size \<open>2\<^sup>3\<^sup>1\<close> and items of one byte, the first \<open>2\<^sup>3\<^sup>1\<close> pushes fill the only
  table, and the next push finds \<^verbatim>\<open>n + initialSize\<close> wrapped to 0: the overflow check ends
  the run in \<^verbatim>\<open>exit(0)\<close> before any pop.
\<close>

theorem lifo_order_counterexample:
  "lifo_run 2147483648 1 (replicate 2147483649 [0]) = Inl Fatal"
proof -
  define xs :: "byte list list" where "xs = replicate 2147483648 [0]"
  obtain s0 where init: "initStack 2147483648 1 = Inr s0"
    by (simp add: initStack_def malloc_def)
  note i = inv_init [OF init]
  have "\<exists>s. pushes s0 xs = Inr s"
    by (intro pushes_succeed [OF i(1), of xs 1]) (simp_all add: i xs_def)
  then obtain s where pushed: "pushes s0 xs = Inr s" ..
  from pushes_fields [OF pushed] have f: "itemSize s = 1" "initialSize s = 2147483648"
    by (simp_all add: i)
  from inv_pushes [OF i(1) pushed] have inv: "stack_inv s (rev (map (take (unat (itemSize s0))) xs))"
    by simp
  from inv have "head s \<noteq> []"
    by (auto simp: stack_inv_def)
  moreover from inv_capacity [OF inv] unat_lt32 [of "stack_n s"]
  have cap: "unat (stack_n s) = 2147483648 * length (head s)" "length (head s) < 2"
    by (simp_all add: f)
  ultimately have k: "length (head s) = 1"
    by (cases "head s") auto
  with cap have n: "unat (stack_n s) = 2147483648" by simp
  from inv_length [OF inv] have "unat (stack_i s) = 2147483648"
    by (simp add: f k n xs_def)
  with n have "stack_i s = stack_n s" "stack_n s = 2147483648"
    by (simp_all add: word_unat_eq_iff)
  then have "push (Some s) [0] = Inl Fatal"
    by (simp add: f)
  with pushed have "pushes s0 (xs @ [[0]]) = Inl Fatal"
    by (simp add: pushes_append)
  moreover have "xs @ [[0]] = replicate 2147483649 [0]"
  proof -
    have "xs @ [[0]] = replicate (Suc 2147483648) [0]"
      unfolding xs_def by (simp only: replicate_append_same replicate.simps)
    then show ?thesis by simp
  qed
  ultimately show ?thesis
    using init by (simp add: lifo_run_def)
qed

subsection \<open>pop and the tables\<close>

text \<open>
  Claim C2. A \<^verbatim>\<open>pop\<close> that returns has removed the head table and nothing else when
  \<^verbatim>\<open>i == 0\<close>, and has left the list of tables as it was when \<^verbatim>\<open>i > 0\<close>. On a reached
  stack holding the items \<open>xs\<close>, not empty, \<^verbatim>\<open>pop\<close> returns the top item; when \<^verbatim>\<open>i == 0\<close>
  the new head is the next older table, \<^verbatim>\<open>n\<close> is decreased by \<^verbatim>\<open>initialSize\<close> to the size
  of that table, which has \<open>n * z\<close> bytes, and \<^verbatim>\<open>i\<close> is that size less the one item
  popped; when \<^verbatim>\<open>i > 0\<close>, \<^verbatim>\<open>n\<close> stays and \<^verbatim>\<open>i\<close> is decreased by one.
\<close>

theorem pop_frees_at_most_one:
  "(pop (Some s) = Inr (y, s') \<longrightarrow>
      (if stack_i s = 0 then head s \<noteq> [] \<and> head s' = tl (head s) else head s' = head s)) \<and>
   (reach c z s xs \<and> xs \<noteq> [] \<longrightarrow>
      (\<exists>t. pop (Some s) = Inr (hd xs, t) \<and>
         (stack_i s = 0 \<longrightarrow>
            stack_n t = stack_n s - c \<and>
            length (Items (hd (head t))) = unat (stack_n t) * unat z \<and>
            stack_i t = stack_n t - 1) \<and>
         (stack_i s \<noteq> 0 \<longrightarrow> stack_n t = stack_n s \<and> stack_i t = stack_i s - 1)))"
proof (intro conjI impI)
  assume "pop (Some s) = Inr (y, s')"
  with pop_descend [of s y s'] pop_stay [of s y s']
  show "if stack_i s = 0 then head s \<noteq> [] \<and> head s' = tl (head s) else head s' = head s"
    by auto
next
  assume "reach c z s xs \<and> xs \<noteq> []"
  then have r: "reach c z s xs" and ne: "xs \<noteq> []" by simp_all
  from reach_inv [OF r] have inv: "stack_inv s xs" and z: "itemSize s = z"
    and c: "initialSize s = c"
    by simp_all
  define t where "t = (if stack_i s = 0
      then s\<lparr>head := tl (head s), stack_n := stack_n s - initialSize s,
             stack_i := stack_n s - initialSize s - 1\<rparr>
      else s\<lparr>stack_i := stack_i s - 1\<rparr>)"
  from inv_pop [OF inv] ne have pop: "pop (Some s) = Inr (hd xs, t)"
    by (simp add: t_def Let_def)
  have "length (Items (hd (head t))) = unat (stack_n t) * unat z" if i0: "stack_i s = 0"
  proof -
    from pop_descend [OF i0 pop] obtain old nd rest where hd: "head s = old # nd # rest"
      by auto
    with inv have le: "initialSize s \<le> stack_n s"
      and "tables_ok (unat z) (unat c) (nd # rest) (unat (stack_n s) - unat c)"
      by (auto simp: stack_inv_def z c)
    then have "length (Items nd) = (unat (stack_n s) - unat c) * unat z"
      by simp
    moreover have "unat (stack_n s - initialSize s) = unat (stack_n s) - unat c"
      using unat_sub32 [OF le] by (simp add: c)
    ultimately show ?thesis
      using i0 hd by (simp add: t_def)
  qed
  with pop show "\<exists>t. pop (Some s) = Inr (hd xs, t) \<and>
         (stack_i s = 0 \<longrightarrow>
            stack_n t = stack_n s - c \<and>
            length (Items (hd (head t))) = unat (stack_n t) * unat z \<and>
            stack_i t = stack_n t - 1) \<and>
         (stack_i s \<noteq> 0 \<longrightarrow> stack_n t = stack_n s \<and> stack_i t = stack_i s - 1)"
    by (intro exI [of _ t]) (simp add: t_def c)
qed

theorem pop_frees_at_most_one_witness:
  "reach 2 1 drained_example [[2], [1]] \<and> stack_i drained_example = 0 \<and>
   pop (Some drained_example) = Inr ([2], full_example\<lparr>stack_i := 1\<rparr>) \<and>
   head (full_example\<lparr>stack_i := 1\<rparr>) = tl (head drained_example) \<and>
   reach 2 1 three_example [[3], [2], [1]] \<and> stack_i three_example \<noteq> 0 \<and>
   pop (Some three_example) = Inr ([3], drained_example) \<and>
   head drained_example = head three_example"
  using pop_frees_at_most_one [of drained_example "[2]" "full_example\<lparr>stack_i := 1\<rparr>" 2 1
      "[[2], [1]]"]
    pop_frees_at_most_one [of three_example "[3]" drained_example 2 1 "[[3], [2], [1]]"]
    reach_drained_example reach_three_example pop_three_example
  by (simp add: three_example_def drained_example_def full_example_def pop_copy_def
      load_item_def)

subsection \<open>push and the tables\<close>

text \<open>
  Claim C3, amended. When the head table is full, \<^verbatim>\<open>n + initialSize\<close> computed with
  wrap-around is greater than \<^verbatim>\<open>n\<close>, and one item fits the bytes asked of \<^verbatim>\<open>malloc\<close>,
  \<^verbatim>\<open>push\<close> returns with exactly one new table in front of the old ones, allocated with
  \<^verbatim>\<open>(n + initialSize) * itemSize\<close> bytes, \<^verbatim>\<open>n\<close> increased by \<^verbatim>\<open>initialSize\<close>, the item at
  offset 0 and \<^verbatim>\<open>i = 1\<close>. When the head table is not full and the item lies inside it,
  \<^verbatim>\<open>push\<close> returns with the same tables, the item written at offset \<^verbatim>\<open>i * itemSize\<close>, all
  other bytes as before, and \<^verbatim>\<open>i\<close> increased by one. On a reached stack the offset
  \<^verbatim>\<open>i * itemSize\<close> does not wrap around.
\<close>

theorem push_step:
  "(stack_i s = stack_n s \<and> stack_n s < stack_n s + initialSize s \<and>
    unat (itemSize s) \<le> length x \<and>
    unat (itemSize s) \<le> unat ((stack_n s + initialSize s) * itemSize s) \<longrightarrow>
      (\<exists>buf. push (Some s) x =
           Inr (s\<lparr>head := \<lparr>Items = buf\<rparr> # head s, stack_n := stack_n s + initialSize s,
                  stack_i := 1\<rparr>) \<and>
         length buf = unat ((stack_n s + initialSize s) * itemSize s) \<and>
         take (unat (itemSize s)) buf = map Some (take (unat (itemSize s)) x))) \<and>
   (stack_i s \<noteq> stack_n s \<and> head s = nd # rest \<and> unat (itemSize s) \<le> length x \<and>
    unat (stack_i s * itemSize s) + unat (itemSize s) \<le> length (Items nd) \<longrightarrow>
      (\<exists>buf. push (Some s) x =
           Inr (s\<lparr>head := \<lparr>Items = buf\<rparr> # rest, stack_i := stack_i s + 1\<rparr>) \<and>
         length buf = length (Items nd) \<and>
         take (unat (itemSize s)) (drop (unat (stack_i s * itemSize s)) buf) =
           map Some (take (unat (itemSize s)) x) \<and>
         take (unat (stack_i s * itemSize s)) buf =
           take (unat (stack_i s * itemSize s)) (Items nd) \<and>
         drop (unat (stack_i s * itemSize s) + unat (itemSize s)) buf =
           drop (unat (stack_i s * itemSize s) + unat (itemSize s)) (Items nd))) \<and>
   (reach c z s xs \<longrightarrow> unat (stack_i s * itemSize s) = unat (stack_i s) * unat z)"
proof (intro conjI impI)
  assume a: "stack_i s = stack_n s \<and> stack_n s < stack_n s + initialSize s \<and>
    unat (itemSize s) \<le> length x \<and>
    unat (itemSize s) \<le> unat ((stack_n s + initialSize s) * itemSize s)"
  define m where "m = unat ((stack_n s + initialSize s) * itemSize s)"
  define buf where "buf = map Some (take (unat (itemSize s)) x) @
      drop (unat (itemSize s)) (replicate m None)"
  from a have "push (Some s) x =
      Inr (s\<lparr>head := \<lparr>Items = buf\<rparr> # head s, stack_n := stack_n s + initialSize s,
             stack_i := 1\<rparr>)"
    by (auto simp: push_copy_def malloc_def store_item_def buf_def m_def)
  moreover from a have "length buf = m"
    by (simp add: buf_def m_def)
  moreover from a have "take (unat (itemSize s)) buf = map Some (take (unat (itemSize s)) x)"
    by (simp add: buf_def)
  ultimately show "\<exists>buf. push (Some s) x =
           Inr (s\<lparr>head := \<lparr>Items = buf\<rparr> # head s, stack_n := stack_n s + initialSize s,
                  stack_i := 1\<rparr>) \<and>
         length buf = unat ((stack_n s + initialSize s) * itemSize s) \<and>
         take (unat (itemSize s)) buf = map Some (take (unat (itemSize s)) x)"
    unfolding m_def by blast
next
  assume a: "stack_i s \<noteq> stack_n s \<and> head s = nd # rest \<and> unat (itemSize s) \<le> length x \<and>
    unat (stack_i s * itemSize s) + unat (itemSize s) \<le> length (Items nd)"
  define off where "off = unat (stack_i s * itemSize s)"
  define k where "k = unat (itemSize s)"
  define buf where "buf = take off (Items nd) @ map Some (take k x) @ drop (off + k) (Items nd)"
  from a have "push (Some s) x =
      Inr (s\<lparr>head := \<lparr>Items = buf\<rparr> # rest, stack_i := stack_i s + 1\<rparr>)"
    by (auto simp: push_copy_def store_item_def buf_def off_def k_def)
  moreover from a have len: "k \<le> length x" "off + k \<le> length (Items nd)"
    by (simp_all add: off_def k_def)
  then have "length buf = length (Items nd)" "take k (drop off buf) = map Some (take k x)"
    "take off buf = take off (Items nd)" "drop (off + k) buf = drop (off + k) (Items nd)"
    by (simp_all add: buf_def)
  ultimately show "\<exists>buf. push (Some s) x =
           Inr (s\<lparr>head := \<lparr>Items = buf\<rparr> # rest, stack_i := stack_i s + 1\<rparr>) \<and>
         length buf = length (Items nd) \<and>
         take (unat (itemSize s)) (drop (unat (stack_i s * itemSize s)) buf) =
           map Some (take (unat (itemSize s)) x) \<and>
         take (unat (stack_i s * itemSize s)) buf =
           take (unat (stack_i s * itemSize s)) (Items nd) \<and>
         drop (unat (stack_i s * itemSize s) + unat (itemSize s)) buf =
           drop (unat (stack_i s * itemSize s) + unat (itemSize s)) (Items nd)"
    unfolding off_def k_def by blast
next
  assume "reach c z s xs"
  from reach_inv [OF this] have inv: "stack_inv s xs" and z: "itemSize s = z"
    by simp_all
  from inv obtain nd rest where "head s = nd # rest"
    and "length (Items nd) = unat (stack_n s * itemSize s)"
    and "unat (stack_i s) * unat (itemSize s) \<le> length (Items nd)"
    by (auto simp: stack_inv_def split: list.splits)
  then have "unat (stack_i s) * unat (itemSize s) < 4294967296"
    using unat_lt32 [of "stack_n s * itemSize s"] by simp
  then show "unat (stack_i s * itemSize s) = unat (stack_i s) * unat z"
    using unat_mult32 [of "stack_i s" "itemSize s"] by (simp add: z)
qed

theorem push_step_witness:
  "stack_i full_example = stack_n full_example \<and>
   push (Some full_example) [3] = Inr three_example \<and>
   head three_example = \<lparr>Items = [Some 3, None, None, None]\<rparr> # head full_example \<and>
   stack_i empty_example \<noteq> stack_n empty_example \<and>
   push (Some empty_example) [7] = Inr one_example \<and>
   head one_example = [\<lparr>Items = [Some 7, None]\<rparr>] \<and>
   reach 2 1 three_example [[3], [2], [1]] \<and>
   unat (stack_i three_example * itemSize three_example) = 1"
  using push_step [of full_example "[3]" "\<lparr>Items = []\<rparr>" "[]" 2 1 "[]"]
    push_step [of empty_example "[7]" "\<lparr>Items = [None, None]\<rparr>" "[]" 2 1 "[]"]
    push_step [of three_example "[]" "\<lparr>Items = []\<rparr>" "[]" 2 1 "[[3], [2], [1]]"]
    push_full_example push_example reach_three_example
  by (simp add: three_example_def full_example_def empty_example_def one_example_def)

text \<open>
  The head table of the stack that \<^verbatim>\<open>initStack(0, 1)\<close> returns is full, and \<^verbatim>\<open>push\<close> on it
  allocates nothing: the overflow check ends it in \<^verbatim>\<open>exit(0)\<close>.
\<close>

theorem push_full_counterexample:
  "initStack 0 1 = Inr zero_example \<and> stack_i zero_example = stack_n zero_example \<and>
   push (Some zero_example) [7] = Inl Fatal"
  by (simp add: initStack_def malloc_def zero_example_def)

subsection \<open>itemExists on a table of more than \<open>2\<^sup>3\<^sup>1\<close> items\<close>

text \<open>
  Claim C4 at a stack whose only table holds \<open>2\<^sup>3\<^sup>1 + 1\<close> items of one byte, all equal to the
  item searched for. \<^verbatim>\<open>itemExists\<close> keeps \<^verbatim>\<open>stack->i - 1\<close> in an \<^verbatim>\<open>int\<close>, which is negative
  here, so the \<^verbatim>\<open>for\<close> loop examines nothing and the call returns 0, although with
  unlimited depth the search of the specification finds the item on top of the stack.
\<close>

theorem itemExists_large_table:
  "search_run 3221225472 1 (replicate 2147483649 [7]) [7] (- 1) same_bytes = Inr 0 \<and>
   search_spec same_bytes [7] (- 1) (rev (replicate 2147483649 [7])) = 1"
proof -
  define xs :: "byte list list" where "xs = replicate 2147483649 [7]"
  obtain s0 where init: "initStack 3221225472 1 = Inr s0"
    by (simp add: initStack_def malloc_def)
  note i = inv_init [OF init]
  have "\<exists>s. pushes s0 xs = Inr s"
    by (intro pushes_succeed [OF i(1), of xs 1]) (simp_all add: i xs_def)
  then obtain s where pushed: "pushes s0 xs = Inr s" ..
  from pushes_fields [OF pushed] have f: "itemSize s = 1" "initialSize s = 3221225472"
    by (simp_all add: i)
  from inv_pushes [OF i(1) pushed] have inv: "stack_inv s (rev (map (take (unat (itemSize s0))) xs))"
    by simp
  from inv obtain nd rest where hd: "head s = nd # rest"
    by (auto simp: stack_inv_def split: list.splits)
  from inv_capacity [OF inv] unat_lt32 [of "stack_n s"]
  have cap: "unat (stack_n s) = 3221225472 * length (head s)" "length (head s) < 2"
    by (simp_all add: f)
  with hd have k: "rest = []" by simp
  with cap hd have n: "unat (stack_n s) = 3221225472" by simp
  from inv_length [OF inv] have "unat (stack_i s) = 2147483649"
    by (simp add: f k hd n xs_def)
  with n have st: "stack_i s = 2147483649" "stack_n s = 3221225472"
    by (simp_all add: word_unat_eq_iff)
  have "\<not> 0 \<le>s (2147483648 :: cint)"
    by (simp add: word_sle_eq)
  then have "itemExists (Some s) [7] (- 1) same_bytes = Inr (0, s)"
    by (simp add: hd k st f for_loop.simps)
  with init pushed have "search_run 3221225472 1 xs [7] (- 1) same_bytes = Inr 0"
    by (simp add: search_run_def)
  moreover have "search_spec same_bytes [7] (- 1) (rev xs) = 1"
    by (simp add: search_spec_def xs_def same_bytes_def word_sless_alt)
  ultimately show ?thesis
    by (simp add: xs_def)
qed

subsection \<open>The sizes of the tables of a reached stack\<close>

text \<open>
  Claim C5. A stack reached from \<^verbatim>\<open>initStack(c, z)\<close> by pushes and pops has at least one
  table, its growth increment is \<open>c\<close>, and table \<open>k\<close>, counted from the oldest, has size
  \<open>c * (k + 1)\<close>: the product does not wrap around, the table was allocated with
  \<^verbatim>\<open>malloc(n * itemSize)\<close> for \<open>n = c * (k + 1)\<close>, every table below the head has exactly
  \<open>c * (k + 1) * z\<close> bytes, and \<^verbatim>\<open>stack->n\<close> is the size of the head table.
\<close>

theorem capacity_invariant:
  "reach c z s xs \<Longrightarrow>
     head s \<noteq> [] \<and> initialSize s = c \<and> unat (stack_n s) = unat c * length (head s) \<and>
     (\<forall>k < length (head s).
        unat c * Suc k < 2 ^ 32 \<and>
        length (Items (rev (head s) ! k)) = unat (word_of_nat (unat c * Suc k) * z) \<and>
        (Suc k < length (head s) \<longrightarrow>
           length (Items (rev (head s) ! k)) = unat c * Suc k * unat z))"
proof -
  assume "reach c z s xs"
  from reach_inv [OF this] have inv: "stack_inv s xs" and z: "itemSize s = z"
    and c: "initialSize s = c"
    by simp_all
  from inv obtain nd rest where hd: "head s = nd # rest"
    and len: "length (Items nd) = unat (stack_n s * z)"
    and older: "tables_ok (unat z) (unat c) rest (unat (stack_n s) - unat c)"
    by (auto simp: stack_inv_def z c split: list.splits)
  have cap: "unat (stack_n s) = unat c * length (head s)"
    using inv_capacity [OF inv] by (simp add: c)
  have table: "unat c * Suc k < 2 ^ 32 \<and>
      length (Items (rev (head s) ! k)) = unat (word_of_nat (unat c * Suc k) * z) \<and>
      (Suc k < length (head s) \<longrightarrow>
         length (Items (rev (head s) ! k)) = unat c * Suc k * unat z)"
    if k: "k < length (head s)" for k
  proof -
    define m where "m = unat c * Suc k"
    have "m \<le> unat c * length (head s)"
      unfolding m_def using k by (intro mult_le_mono2) simp
    then have small: "m < 4294967296"
      using cap unat_lt32 [of "stack_n s"] by simp
    then have m: "unat (word_of_nat m :: uint) = m"
      by (rule unat_of_nat32)
    have "m < 2 ^ 32 \<and> length (Items (rev (head s) ! k)) = unat (word_of_nat m * z) \<and>
      (Suc k < length (head s) \<longrightarrow> length (Items (rev (head s) ! k)) = m * unat z)"
    proof (cases "k < length rest")
      case True
      from tables_ok_nth [OF older True]
      have 1: "length (Items (rev rest ! k)) = m * unat z"
        and 2: "m * unat z < 4294967296"
        by (simp_all add: m_def)
      have "unat (word_of_nat m * z) = m * unat z"
        using 2 m unat_mult32 [of "word_of_nat m" z] by simp
      with 1 small True show ?thesis
        by (simp add: hd nth_append)
    next
      case False
      with k have k: "k = length rest" by (simp add: hd)
      then have "unat (stack_n s) = m"
        using cap by (simp add: hd m_def)
      then have "word_of_nat m = stack_n s"
        using of_nat_unat [of "stack_n s", where 'a = uint] by simp
      with len small k show ?thesis
        by (simp add: hd nth_append)
    qed
    then show ?thesis unfolding m_def .
  qed
  have "head s \<noteq> []" by (simp add: hd)
  with c cap table show ?thesis by blast
qed

theorem capacity_invariant_witness:
  "reach 2 1 three_example [[3], [2], [1]] \<and> head three_example \<noteq> [] \<and>
   unat (stack_n three_example) = 2 * 2 \<and>
   length (Items (rev (head three_example) ! 0)) = 2 \<and>
   length (Items (rev (head three_example) ! 1)) = 4"
  using capacity_invariant [OF reach_three_example] reach_three_example
  by (simp add: three_example_def)

subsection \<open>isStackEmpty\<close>

text \<open>
  Claim C6. \<^verbatim>\<open>isStackEmpty\<close> returns non-zero exactly when \<^verbatim>\<open>i == 0\<close> and the list of tables
  has one node, and it leaves the stack as it is. On a stack reached from \<^verbatim>\<open>initStack\<close>
  by pushes and pops it returns 1 when every pushed item has been popped (also right
  after \<^verbatim>\<open>initStack\<close>) and 0 when some pushed item has not been popped yet.
\<close>

theorem isStackEmpty_correct:
  "(isStackEmpty (Some s) = Inr (r, s') \<longrightarrow>
      s' = s \<and> (r \<noteq> 0 \<longleftrightarrow> stack_i s = 0 \<and> length (head s) = 1)) \<and>
   (reach c z s xs \<longrightarrow> isStackEmpty (Some s) = Inr (if xs = [] then 1 else 0, s))"
proof -
  have "isStackEmpty (Some s) = Inr (if xs = [] then 1 else 0, s)" if "reach c z s xs"
    using reach_inv [OF that] inv_isStackEmpty by blast
  moreover have "s' = s \<and> (r \<noteq> 0 \<longleftrightarrow> stack_i s = 0 \<and> length (head s) = 1)"
    if "isStackEmpty (Some s) = Inr (r, s')"
    using that by (auto split: if_splits list.splits)
  ultimately show ?thesis by blast
qed

theorem isStackEmpty_correct_witness:
  "isStackEmpty (Some empty_example) = Inr (1, empty_example) \<and>
   stack_i empty_example = 0 \<and> length (head empty_example) = 1 \<and>
   reach 2 1 one_example [[7]] \<and>
   isStackEmpty (Some one_example) = Inr (0, one_example)"
  using isStackEmpty_correct [of empty_example 1 empty_example 2 1 "[]"]
    isStackEmpty_correct [of one_example 0 one_example 2 1 "[[7]]"]
    reach_one_example
  by (simp add: empty_example_def)

subsection \<open>The overflow check of push\<close>

text \<open>
  Claim C7. When the head table is full, \<^verbatim>\<open>push\<close> ends in \<^verbatim>\<open>exit(0)\<close> whenever
  \<^verbatim>\<open>n + initialSize\<close>, computed with wrap-around, is not greater than \<^verbatim>\<open>n\<close>. Otherwise it
  does not end in \<^verbatim>\<open>exit(0)\<close>, and when it returns the new \<^verbatim>\<open>n\<close> is \<^verbatim>\<open>n + initialSize\<close>
  without wrap-around. On a reached stack \<^verbatim>\<open>n\<close> is the product of the initial size and
  the number of tables, taken in the natural numbers.
\<close>

theorem push_overflow_guard:
  "(stack_i s = stack_n s \<and> \<not> stack_n s < stack_n s + initialSize s \<longrightarrow>
      push (Some s) x = Inl Fatal) \<and>
   (stack_i s = stack_n s \<and> stack_n s < stack_n s + initialSize s \<longrightarrow>
      push (Some s) x \<noteq> Inl Fatal \<and>
      (\<forall>s'. push (Some s) x = Inr s' \<longrightarrow>
         stack_n s' = stack_n s + initialSize s \<and>
         unat (stack_n s') = unat (stack_n s) + unat (initialSize s))) \<and>
   (reach c z s xs \<longrightarrow> unat (stack_n s) = unat c * length (head s))"
proof (intro conjI impI allI)
  assume "stack_i s = stack_n s \<and> \<not> stack_n s < stack_n s + initialSize s"
  then show "push (Some s) x = Inl Fatal" by auto
next
  assume "stack_i s = stack_n s \<and> stack_n s < stack_n s + initialSize s"
  then show "push (Some s) x \<noteq> Inl Fatal"
    by (auto simp: malloc_def push_copy_def store_item_not_Fatal split: sum.splits)
next
  fix s'
  assume "stack_i s = stack_n s \<and> stack_n s < stack_n s + initialSize s"
    and "push (Some s) x = Inr s'"
  then have "stack_n s' = stack_n s + initialSize s"
    using push_full [of s x s'] by auto
  then show "stack_n s' = stack_n s + initialSize s" .
next
  fix s'
  assume *: "stack_i s = stack_n s \<and> stack_n s < stack_n s + initialSize s"
    and "push (Some s) x = Inr s'"
  then have "stack_n s' = stack_n s + initialSize s"
    using push_full [of s x s'] by auto
  with * unat_grow [of "stack_n s" "initialSize s"]
  show "unat (stack_n s') = unat (stack_n s) + unat (initialSize s)" by simp
next
  assume "reach c z s xs"
  from reach_inv [OF this] inv_capacity [of s xs]
  show "unat (stack_n s) = unat c * length (head s)" by simp
qed

theorem push_overflow_guard_witness:
  "stack_i zero_example = stack_n zero_example \<and>
   \<not> stack_n zero_example < stack_n zero_example + initialSize zero_example \<and>
   push (Some zero_example) [7] = Inl Fatal \<and>
   stack_i full_example = stack_n full_example \<and>
   stack_n full_example < stack_n full_example + initialSize full_example \<and>
   push (Some full_example) [3] = Inr three_example \<and>
   unat (stack_n three_example) = unat (stack_n full_example) + unat (initialSize full_example) \<and>
   reach 2 1 three_example [[3], [2], [1]] \<and>
   unat (stack_n three_example) = 2 * length (head three_example)"
  using push_overflow_guard [of zero_example "[7]"]
    push_overflow_guard [of full_example "[3]"]
    push_overflow_guard [of three_example "[]" 2 1 "[[3], [2], [1]]"]
    push_full_example reach_three_example
  by (simp add: zero_example_def full_example_def three_example_def)

subsection \<open>pop on an empty stack\<close>

text \<open>
  Claim C8. \<^verbatim>\<open>pop\<close> on a \<^verbatim>\<open>NULL\<close> handle, and on a stack that \<^verbatim>\<open>isStackEmpty\<close> reports
  empty, is \<^verbatim>\<open>exit(0)\<close>: the call yields neither a stack nor bytes for the destination,
  so nothing is mutated and nothing is written. On a stack that \<^verbatim>\<open>isStackEmpty\<close>
  reports non-empty, \<^verbatim>\<open>pop\<close> never ends in \<^verbatim>\<open>exit(0)\<close>.
\<close>

theorem pop_requires_nonempty:
  "pop None = Inl Fatal \<and>
   (isStackEmpty (Some s) = Inr (r, s1) \<and> r \<noteq> 0 \<longrightarrow> pop (Some s) = Inl Fatal) \<and>
   (isStackEmpty (Some s) = Inr (0, s1) \<longrightarrow> pop (Some s) \<noteq> Inl Fatal)"
  by (auto simp: pop_copy_def load_item_not_Fatal split: list.splits sum.splits if_splits)

theorem pop_requires_nonempty_witness:
  "isStackEmpty (Some empty_example) = Inr (1, empty_example) \<and> (1 :: cint) \<noteq> 0 \<and>
   pop (Some empty_example) = Inl Fatal \<and>
   isStackEmpty (Some one_example) = Inr (0, one_example) \<and>
   pop (Some one_example) \<noteq> Inl Fatal"
  using pop_requires_nonempty [of empty_example 1 empty_example]
    pop_requires_nonempty [of one_example 0 one_example]
  by (simp add: empty_example_def one_example_def)

subsection \<open>itemExists leaves the stack as it is\<close>

text \<open>
  Claim C9. \<^verbatim>\<open>itemExists\<close> is read-only: whatever the item, the depth and the comparison
  function (a function of the two items' bytes), the stack after a call that
  returns is the stack before it, with the same tables, \<^verbatim>\<open>i\<close>, \<^verbatim>\<open>n\<close>, \<^verbatim>\<open>itemSize\<close>,
  \<^verbatim>\<open>initialSize\<close> and bytes, so no table was freed.
\<close>

theorem itemExists_read_only:
  "itemExists (Some s) item max_depth equal = Inr (r, s') \<Longrightarrow> s' = s"
  by (simp add: while_loop_frame)

theorem itemExists_read_only_witness:
  "itemExists (Some three_example) [1] (- 1) same_bytes = Inr (1, three_example)"
  using itemExists_read_only [OF itemExists_example] itemExists_example by simp

subsection \<open>Initial size 0\<close>

lemma reach_zero:
  "reach 0 z s xs \<Longrightarrow> initStack 0 z = Inr s \<and> xs = []"
proof (induction rule: reach.induct)
  case (reach_init s)
  then show ?case by simp
next
  case (reach_push s xs x s')
  then have "push (Some s) x = Inl Fatal"
    by (auto simp: initStack_def malloc_def)
  with reach_push.hyps show ?case by simp
next
  case (reach_pop s xs y s')
  then have "pop (Some s) = Inl Fatal"
    by (auto simp: initStack_def malloc_def)
  with reach_pop.hyps show ?case by simp
qed

text \<open>
  Claim C10. \<^verbatim>\<open>initStack(0, z)\<close> returns a stack with \<^verbatim>\<open>initialSize\<close> 0. The only stack
  reached from it is that stack itself, holding nothing: \<^verbatim>\<open>isStackEmpty\<close> returns 1 on it
  and every \<^verbatim>\<open>push\<close> ends in \<^verbatim>\<open>exit(0)\<close>.
\<close>

theorem zero_capacity:
  "initStack 0 z =
     Inr \<lparr>head = [\<lparr>Items = []\<rparr>], stack_i = 0, stack_n = 0, itemSize = z, initialSize = 0\<rparr> \<and>
   (reach 0 z s xs \<longrightarrow>
      initStack 0 z = Inr s \<and> xs = [] \<and> isStackEmpty (Some s) = Inr (1, s) \<and>
      push (Some s) x = Inl Fatal)"
proof -
  have "initStack 0 z = Inr s \<Longrightarrow>
      isStackEmpty (Some s) = Inr (1, s) \<and> push (Some s) x = Inl Fatal"
    by (auto simp: initStack_def malloc_def)
  with reach_zero [of z s xs] show ?thesis
    by (auto simp: initStack_def malloc_def)
qed

theorem zero_capacity_witness:
  "reach 0 1 zero_example [] \<and> isStackEmpty (Some zero_example) = Inr (1, zero_example) \<and>
   push (Some zero_example) [7] = Inl Fatal"
proof -
  have "initStack 0 1 = Inr zero_example"
    by (simp add: initStack_def malloc_def zero_example_def)
  then have "reach 0 1 zero_example []"
    by (rule reach_init)
  with zero_capacity [of 1 zero_example "[]" "[7]"] show ?thesis
    by simp
qed

end
